theory Spec2Isabelle
  imports Main
begin

section \<open>JavaScript values, strings and arrays\<close>

text \<open>
  The path functions are declared over \<open>string\<close> arguments, but \<open>resolve\<close> and \<open>join\<close>
  test \<open>typeof path !== 'string'\<close> at run time, so their variadic arguments are modelled
  as JavaScript values. A string is a list of characters (code units); the algorithms only
  ever compare characters with \<open>/\<close> and \<open>.\<close>.
\<close>

datatype js_value =
    JString string
  | JNumber int
  | JBoolean bool
  | JNull
  | JUndefined
  | JObject

datatype error = TypeError

text \<open>\<open>s.slice(start, end)\<close> of strings and arrays: negative indices count from the end,
  both indices are clamped to the length; an omitted \<open>end\<close> is the length.\<close>

definition js_slice :: "'a list \<Rightarrow> int \<Rightarrow> int option \<Rightarrow> 'a list" where
  "js_slice xs start end =
     (let len = int (length xs);
          from = (if start < 0 then max (len + start) 0 else min start len);
          e = (case end of None \<Rightarrow> len | Some v \<Rightarrow> v);
          to = (if e < 0 then max (len + e) 0 else min e len)
      in take (nat (to - from)) (drop (nat from) xs))"

text \<open>\<open>s.charAt(i)\<close>: the one-character string at index \<open>i\<close>, or the empty string.\<close>

definition charAt :: "string \<Rightarrow> nat \<Rightarrow> string" where
  "charAt s i = (if i < length s then [s ! i] else [])"

text \<open>\<open>s.split('/')\<close>: never empty, the empty string splits into one empty piece.\<close>

fun split_sep :: "string \<Rightarrow> string list" where
  "split_sep [] = [[]]"
| "split_sep (c # cs) =
     (if c = CHR ''/'' then [] # split_sep cs
      else (case split_sep cs of [] \<Rightarrow> [[c]] | w # ws \<Rightarrow> (c # w) # ws))"

text \<open>\<open>arr.join('/')\<close>.\<close>

fun join_sep :: "string list \<Rightarrow> string" where
  "join_sep [] = []"
| "join_sep [x] = x"
| "join_sep (x # y # ys) = x @ ''/'' @ join_sep (y # ys)"

text \<open>\<open>arr.filter(p => !!p)\<close> on an array of strings keeps the non-empty ones.\<close>

definition filter_truthy :: "string list \<Rightarrow> string list" where
  "filter_truthy parts = filter (\<lambda>p. p \<noteq> []) parts"

text \<open>\<open>parts.splice(i, 1)\<close>: the array without its element at index \<open>i\<close>.\<close>

definition splice1 :: "'a list \<Rightarrow> nat \<Rightarrow> 'a list" where
  "splice1 parts i = take i parts @ drop (Suc i) parts"

section \<open>normalizeArray\<close>

text \<open>
  The backward loop \<open>for (let i = parts.length - 1; i >= 0; i--)\<close>. The second argument
  is \<open>i + 1\<close>, so that the loop ends at \<open>0\<close>; the result is the array and the counter \<open>up\<close>.
\<close>

fun normalizeArray_scan :: "string list \<Rightarrow> nat \<Rightarrow> nat \<Rightarrow> string list \<times> nat" where
  "normalizeArray_scan parts 0 up = (parts, up)"
| "normalizeArray_scan parts (Suc i) up =
     (let last = parts ! i in
      if last = ''.'' then normalizeArray_scan (splice1 parts i) i up
      else if last = ''..'' then normalizeArray_scan (splice1 parts i) i (up + 1)
      else if up \<noteq> 0 then normalizeArray_scan (splice1 parts i) i (up - 1)
      else normalizeArray_scan parts i up)"

text \<open>\<open>for (; up--; up) parts.unshift('..')\<close>.\<close>

fun unshift_ups :: "string list \<Rightarrow> nat \<Rightarrow> string list" where
  "unshift_ups parts 0 = parts"
| "unshift_ups parts (Suc up) = unshift_ups (''..'' # parts) up"

definition normalizeArray :: "string list \<Rightarrow> bool \<Rightarrow> string list" where
  "normalizeArray parts allowAboveRoot =
     (case normalizeArray_scan parts (length parts) 0 of
        (parts', up) \<Rightarrow> if allowAboveRoot then unshift_ups parts' up else parts')"

section \<open>resolve, isAbsolute, normalize, join\<close>

text \<open>
  The loop of \<open>resolve\<close>, with the index \<open>i\<close> running from \<open>args.length - 1\<close> down to \<open>-1\<close>,
  where the fragment is the synthetic root \<open>/\<close>. A fragment that is not a string throws.
\<close>

function resolve_loop ::
  "js_value list \<Rightarrow> int \<Rightarrow> string \<Rightarrow> bool \<Rightarrow> error + (string \<times> bool)" where
  "resolve_loop args i resolvedPath resolvedAbsolute =
     (if i \<ge> -1 \<and> \<not> resolvedAbsolute then
        (case (if i \<ge> 0 then args ! nat i else JString ''/'') of
           JString path \<Rightarrow>
             if path = [] then resolve_loop args (i - 1) resolvedPath resolvedAbsolute
             else resolve_loop args (i - 1) (path @ ''/'' @ resolvedPath)
                    (charAt path 0 = ''/'')
         | _ \<Rightarrow> Inl TypeError)
      else Inr (resolvedPath, resolvedAbsolute))"
  by pat_completeness auto
termination
  by (relation "measure (\<lambda>(args, i, rp, ra). nat (i + 2))") auto

declare resolve_loop.simps [simp del]

definition resolve :: "js_value list \<Rightarrow> error + string" where
  "resolve args =
     (case resolve_loop args (int (length args) - 1) [] False of
        Inl e \<Rightarrow> Inl e
      | Inr (resolvedPath, resolvedAbsolute) \<Rightarrow>
          (let resolvedPath' =
                 join_sep (normalizeArray (filter_truthy (split_sep resolvedPath))
                             (\<not> resolvedAbsolute));
               r = (if resolvedAbsolute then ''/'' else []) @ resolvedPath'
           in Inr (if r = [] then ''.'' else r)))"

definition isAbsolute :: "string \<Rightarrow> bool" where
  "isAbsolute path = (charAt path 0 = ''/'')"

definition normalize :: "string \<Rightarrow> string" where
  "normalize path =
     (let isPathAbsolute = isAbsolute path;
          trailingSlash = (js_slice path (-1) None = ''/'');
          path1 = join_sep (normalizeArray (filter_truthy (split_sep path)) (\<not> isPathAbsolute));
          path2 = (if path1 = [] \<and> \<not> isPathAbsolute then ''.'' else path1);
          path3 = (if path2 \<noteq> [] \<and> trailingSlash then path2 @ ''/'' else path2)
      in (if isPathAbsolute then ''/'' else []) @ path3)"

text \<open>The callback of \<open>args.filter\<close> in \<open>join\<close>: it throws on the first element that is
  not a string and keeps the non-empty strings.\<close>

fun join_filter :: "js_value list \<Rightarrow> error + string list" where
  "join_filter [] = Inr []"
| "join_filter (JString p # ps) =
     (case join_filter ps of
        Inl e \<Rightarrow> Inl e
      | Inr qs \<Rightarrow> Inr (if p \<noteq> [] then p # qs else qs))"
| "join_filter (_ # ps) = Inl TypeError"

definition join :: "js_value list \<Rightarrow> error + string" where
  "join args =
     (case join_filter args of
        Inl e \<Rightarrow> Inl e
      | Inr ps \<Rightarrow> Inr (normalize (join_sep ps)))"

section \<open>relative\<close>

function trim_start :: "string list \<Rightarrow> nat \<Rightarrow> nat" where
  "trim_start arr start =
     (if start < length arr then
        (if arr ! start \<noteq> [] then start else trim_start arr (start + 1))
      else start)"
  by pat_completeness auto
termination
  by (relation "measure (\<lambda>(arr, start). length arr - start)") auto

declare trim_start.simps [simp del]

function trim_end :: "string list \<Rightarrow> int \<Rightarrow> int" where
  "trim_end arr end =
     (if end \<ge> 0 then
        (if arr ! nat end \<noteq> [] then end else trim_end arr (end - 1))
      else end)"
  by pat_completeness auto
termination
  by (relation "measure (\<lambda>(arr, end). nat (end + 1))") auto

declare trim_end.simps [simp del]

definition trim :: "string list \<Rightarrow> string list" where
  "trim arr =
     (let start = int (trim_start arr 0);
          end = trim_end arr (int (length arr) - 1)
      in if start > end then [] else js_slice arr start (Some (end - start + 1)))"

function shared_loop :: "string list \<Rightarrow> string list \<Rightarrow> nat \<Rightarrow> nat \<Rightarrow> nat" where
  "shared_loop lhs rhs len shared =
     (if shared < len then
        (if lhs ! shared \<noteq> rhs ! shared then shared else shared_loop lhs rhs len (shared + 1))
      else shared)"
  by pat_completeness auto
termination
  by (relation "measure (\<lambda>(lhs, rhs, len, shared). len - shared)") auto

declare shared_loop.simps [simp del]

function push_ups :: "string list \<Rightarrow> nat \<Rightarrow> string list \<Rightarrow> string list" where
  "push_ups lhs i result =
     (if i < length lhs then push_ups lhs (i + 1) (result @ [''..'']) else result)"
  by pat_completeness auto
termination
  by (relation "measure (\<lambda>(lhs, i, result). length lhs - i)") auto

declare push_ups.simps [simp del]

definition relative :: "string \<Rightarrow> string \<Rightarrow> error + string" where
  "relative from to =
     (case resolve [JString from] of
        Inl e \<Rightarrow> Inl e
      | Inr rf \<Rightarrow>
     (case resolve [JString to] of
        Inl e \<Rightarrow> Inl e
      | Inr rt \<Rightarrow>
          (let lhs = trim (split_sep (js_slice rf 1 None));
               rhs = trim (split_sep (js_slice rt 1 None));
               len = min (length lhs) (length rhs);
               shared = shared_loop lhs rhs len 0;
               result = push_ups lhs shared []
           in Inr (join_sep (result @ js_slice rhs (int shared) None)))))"

definition sep :: string where "sep = ''/''"
definition delimiter :: string where "delimiter = '':''"

section \<open>The pattern of \<open>parse\<close>\<close>

text \<open>
  \<open>parse\<close> runs one regular expression. The pattern is embedded as a syntax tree and run by
  a backtracking matcher written with continuations, as the language standard defines
  matching: alternatives are tried left to right, a greedy quantifier tries the longest
  repetition first and a lazy one the shortest. Every quantifier of the pattern applies to
  a single character class, so \<open>Quant\<close> takes a class.
\<close>

datatype char_class =
    AnyChar              \<comment> \<open>\<open>[\s\S]\<close>\<close>
  | Lit char             \<comment> \<open>an escaped character such as \<open>\.\<close> or \<open>\/\<close>\<close>
  | OneOf "char list"    \<comment> \<open>\<open>[...]\<close>\<close>
  | NoneOf "char list"   \<comment> \<open>\<open>[^...]\<close>\<close>

fun class_matches :: "char_class \<Rightarrow> char \<Rightarrow> bool" where
  "class_matches AnyChar ch = True"
| "class_matches (Lit l) ch = (ch = l)"
| "class_matches (OneOf cs) ch = (ch \<in> set cs)"
| "class_matches (NoneOf cs) ch = (ch \<notin> set cs)"

datatype regex =
    Empty                                   \<comment> \<open>the empty alternative\<close>
  | Atom char_class
  | Seq regex regex
  | Alt regex regex                         \<comment> \<open>\<open>a|b\<close>\<close>
  | Quant char_class nat "nat option" bool  \<comment> \<open>class, min, max (None: unbounded), greedy\<close>
  | Group nat regex                         \<comment> \<open>capturing group with its number\<close>
  | Bol                                     \<comment> \<open>\<open>^\<close>\<close>
  | Eol                                     \<comment> \<open>\<open>$\<close>\<close>

text \<open>A match state is the end index and the captures (\<open>None\<close> is \<open>undefined\<close>).\<close>

type_synonym captures = "string option list"
type_synonym mstate = "nat \<times> captures"
type_synonym continuation = "mstate \<Rightarrow> mstate option"

definition substring :: "string \<Rightarrow> nat \<Rightarrow> nat \<Rightarrow> string" where
  "substring inp i j = take (j - i) (drop i inp)"

function repeat_matcher ::
  "char_class \<Rightarrow> nat \<Rightarrow> nat option \<Rightarrow> bool \<Rightarrow> string \<Rightarrow> mstate \<Rightarrow> continuation
     \<Rightarrow> mstate option" where
  "repeat_matcher cc mn mx greedy inp (e, cap) c =
     (if mx = Some 0 then c (e, cap)
      else if mn \<noteq> 0 then
        (if e < length inp \<and> class_matches cc (inp ! e)
         then repeat_matcher cc (mn - 1) (map_option (\<lambda>m. m - 1) mx) greedy inp (e + 1, cap) c
         else None)
      else if \<not> greedy then
        (case c (e, cap) of
           Some z \<Rightarrow> Some z
         | None \<Rightarrow>
             if e < length inp \<and> class_matches cc (inp ! e)
             then repeat_matcher cc 0 (map_option (\<lambda>m. m - 1) mx) greedy inp (e + 1, cap) c
             else None)
      else
        (case (if e < length inp \<and> class_matches cc (inp ! e)
               then repeat_matcher cc 0 (map_option (\<lambda>m. m - 1) mx) greedy inp (e + 1, cap) c
               else None) of
           Some z \<Rightarrow> Some z
         | None \<Rightarrow> c (e, cap)))"
  by pat_completeness auto
termination
  by (relation "measure (\<lambda>(cc, mn, mx, greedy, inp, (e, cap), c). length inp - e)") auto

declare repeat_matcher.simps [simp del]

fun matcher :: "regex \<Rightarrow> string \<Rightarrow> mstate \<Rightarrow> continuation \<Rightarrow> mstate option" where
  "matcher Empty inp x c = c x"
| "matcher (Atom cc) inp (e, cap) c =
     (if e < length inp \<and> class_matches cc (inp ! e) then c (e + 1, cap) else None)"
| "matcher (Seq r1 r2) inp x c = matcher r1 inp x (\<lambda>y. matcher r2 inp y c)"
| "matcher (Alt r1 r2) inp x c =
     (case matcher r1 inp x c of Some z \<Rightarrow> Some z | None \<Rightarrow> matcher r2 inp x c)"
| "matcher (Quant cc mn mx greedy) inp x c = repeat_matcher cc mn mx greedy inp x c"
| "matcher (Group n r) inp (e, cap) c =
     matcher r inp (e, cap) (\<lambda>(e', cap'). c (e', cap'[n := Some (substring inp e e')]))"
| "matcher Bol inp (e, cap) c = (if e = 0 then c (e, cap) else None)"
| "matcher Eol inp (e, cap) c = (if e = length inp then c (e, cap) else None)"

text \<open>
  \<open>re.exec(s)\<close> for a pattern without flags: the match is tried at each start index from 0
  on; the result is the matched text followed by the \<open>ncap\<close> captures, or \<open>null\<close> (here \<open>None\<close>).
\<close>

function exec_loop :: "regex \<Rightarrow> nat \<Rightarrow> string \<Rightarrow> nat \<Rightarrow> string option list option" where
  "exec_loop r ncap inp lastIndex =
     (if lastIndex > length inp then None
      else (case matcher r inp (lastIndex, replicate (Suc ncap) None) Some of
              None \<Rightarrow> exec_loop r ncap inp (lastIndex + 1)
            | Some (e, cap) \<Rightarrow> Some (cap[0 := Some (substring inp lastIndex e)])))"
  by pat_completeness auto
termination
  by (relation "measure (\<lambda>(r, ncap, inp, lastIndex). Suc (length inp) - lastIndex)") auto

declare exec_loop.simps [simp del]

definition exec :: "regex \<Rightarrow> nat \<Rightarrow> string \<Rightarrow> string option list option" where
  "exec r ncap inp = exec_loop r ncap inp 0"

text \<open>\<open>/^(\/?|)([\s\S]*?)((?:\.{1,2}|[^\/]+?|)(\.[^.\/]*|))(?:[\/]*)$/\<close>\<close>

definition pathRegExp :: regex where
  "pathRegExp =
     Seq Bol
    (Seq (Group 1 (Alt (Quant (Lit CHR ''/'') 0 (Some 1) True) Empty))
    (Seq (Group 2 (Quant AnyChar 0 None False))
    (Seq (Group 3
            (Seq (Alt (Quant (Lit CHR ''.'') 1 (Some 2) True)
                 (Alt (Quant (NoneOf ''/'') 1 None False)
                      Empty))
                 (Group 4 (Alt (Seq (Atom (Lit CHR ''.'')) (Quant (NoneOf ''./'') 0 None True))
                               Empty))))
    (Seq (Quant (OneOf ''/'') 0 None True)
         Eol))))"

section \<open>parse, dirname, basename, extname\<close>

text \<open>\<open>exec(filename)!.slice(1)\<close>: reading \<open>slice\<close> of \<open>null\<close> throws a TypeError.\<close>

definition parse :: "string \<Rightarrow> error + string option list" where
  "parse filename =
     (case exec pathRegExp 4 filename of
        None \<Rightarrow> Inl TypeError
      | Some arr \<Rightarrow> Inr (js_slice arr 1 None))"

text \<open>\<open>arr[i]\<close> is \<open>undefined\<close> out of range; \<open>!v\<close> holds for \<open>undefined\<close> and the empty
  string; string concatenation converts \<open>undefined\<close> to its name.\<close>

definition js_index :: "string option list \<Rightarrow> nat \<Rightarrow> string option" where
  "js_index arr i = (if i < length arr then arr ! i else None)"

definition truthy :: "string option \<Rightarrow> bool" where
  "truthy v = (case v of None \<Rightarrow> False | Some s \<Rightarrow> s \<noteq> [])"

definition to_string :: "string option \<Rightarrow> string" where
  "to_string v = (case v of None \<Rightarrow> ''undefined'' | Some s \<Rightarrow> s)"

text \<open>In \<open>root + dir\<close> one operand is a non-empty string (the guard before it returned
  otherwise), so \<open>+\<close> concatenates.\<close>

definition dirname :: "string \<Rightarrow> error + string" where
  "dirname path =
     (case parse path of
        Inl e \<Rightarrow> Inl e
      | Inr result \<Rightarrow>
          (let root = js_index result 0;
               dir = js_index result 1
           in if \<not> truthy root \<and> \<not> truthy dir then Inr ''.''
              else (let dir' = (if truthy dir
                                then map_option (\<lambda>d. js_slice d 0 (Some (-1))) dir
                                else dir)
                    in Inr (to_string root @ to_string dir'))))"

text \<open>The optional \<open>ext\<close> is \<open>None\<close> when omitted. The result is \<open>None\<close> when the capture
  is \<open>undefined\<close>; \<open>f.slice\<close> on \<open>undefined\<close> throws.\<close>

definition basename :: "string \<Rightarrow> string option \<Rightarrow> error + string option" where
  "basename path ext =
     (case parse path of
        Inl e \<Rightarrow> Inl e
      | Inr result \<Rightarrow>
          (let f = js_index result 2
           in if truthy ext then
                (case f of
                   None \<Rightarrow> Inl TypeError
                 | Some fs \<Rightarrow>
                     (let n = int (length (the ext))
                      in if js_slice fs (- n) None = the ext
                         then Inr (Some (js_slice fs 0 (Some (- n))))
                         else Inr f))
              else Inr f))"

definition extname :: "string \<Rightarrow> error + string option" where
  "extname path =
     (case parse path of
        Inl e \<Rightarrow> Inl e
      | Inr result \<Rightarrow> Inr (js_index result 3))"

section \<open>Auxiliary notions for the proofs\<close>

text \<open>The non-empty pieces of a path: \<open>s.split('/').filter(p => !!p)\<close>.\<close>

definition segs :: "string \<Rightarrow> string list" where
  "segs s = filter_truthy (split_sep s)"

text \<open>A string without separator.\<close>

definition noslash :: "string \<Rightarrow> bool" where
  "noslash s = (CHR ''/'' \<notin> set s)"

text \<open>Segments as \<open>segs\<close> produces them: non-empty and without separator.\<close>

definition good_parts :: "string list \<Rightarrow> bool" where
  "good_parts xs = (\<forall>x \<in> set xs. x \<noteq> [] \<and> noslash x)"

text \<open>The backward scan of \<open>normalizeArray\<close> as a recursion over the reversed array:
  the result is the kept segments, in their original order, and the counter.\<close>

fun nscan :: "string list \<Rightarrow> nat \<Rightarrow> string list \<times> nat" where
  "nscan [] up = ([], up)"
| "nscan (x # xs) up =
     (if x = ''.'' then nscan xs up
      else if x = ''..'' then nscan xs (up + 1)
      else if up \<noteq> 0 then nscan xs (up - 1)
      else (case nscan xs up of (k, u) \<Rightarrow> (k @ [x], u)))"

text \<open>No segment is \<open>.\<close> or \<open>..\<close>.\<close>

definition dotfree :: "string list \<Rightarrow> bool" where
  "dotfree xs = (''.'' \<notin> set xs \<and> ''..'' \<notin> set xs)"

text \<open>The segments of \<open>resolve(p)\<close>.\<close>

definition resolved_parts :: "string \<Rightarrow> string list" where
  "resolved_parts p = normalizeArray (segs p) False"

text \<open>The test \<open>path.slice(-1) === '/'\<close>.\<close>

definition endsWithSlash :: "string \<Rightarrow> bool" where
  "endsWithSlash p = (js_slice p (-1) None = ''/'')"

text \<open>\<open>typeof v === 'string'\<close>, and a string argument that is an absolute path.\<close>

definition is_string :: "js_value \<Rightarrow> bool" where
  "is_string v = (case v of JString s \<Rightarrow> True | _ \<Rightarrow> False)"

definition is_absolute_arg :: "js_value \<Rightarrow> bool" where
  "is_absolute_arg v = (case v of JString s \<Rightarrow> isAbsolute s | _ \<Rightarrow> False)"

text \<open>What the matcher can do, as a relation: \<open>can r inp x y\<close> holds when the pattern
  \<open>r\<close> can take the match state \<open>x\<close> to \<open>y\<close> on the input, by some choice of alternatives
  and repetition counts.\<close>

primrec can :: "regex \<Rightarrow> string \<Rightarrow> mstate \<Rightarrow> mstate \<Rightarrow> bool" where
  "can Empty inp x y = (y = x)"
| "can (Atom cc) inp x y =
     (fst x < length inp \<and> class_matches cc (inp ! fst x) \<and> y = (fst x + 1, snd x))"
| "can (Seq r1 r2) inp x y = (\<exists>m. can r1 inp x m \<and> can r2 inp m y)"
| "can (Alt r1 r2) inp x y = (can r1 inp x y \<or> can r2 inp x y)"
| "can (Quant cc mn mx greedy) inp x y =
     (\<exists>k. y = (fst x + k, snd x) \<and> mn \<le> k \<and> (case mx of None \<Rightarrow> True | Some m \<Rightarrow> k \<le> m) \<and>
          (\<forall>i<k. fst x + i < length inp \<and> class_matches cc (inp ! (fst x + i))))"
| "can (Group n r) inp x y =
     (\<exists>m. can r inp x m \<and> y = (fst m, (snd m)[n := Some (substring inp (fst x) (fst m))]))"
| "can Bol inp x y = (fst x = 0 \<and> y = x)"
| "can Eol inp x y = (fst x = length inp \<and> y = x)"

text \<open>A quantifier \<open>{min,max}\<close> is well formed when \<open>min\<close> does not exceed \<open>max\<close>.\<close>

definition quant_ok :: "nat \<Rightarrow> nat option \<Rightarrow> bool" where
  "quant_ok mn mx = (case mx of None \<Rightarrow> True | Some m \<Rightarrow> mn \<le> m)"

primrec wf_regex :: "regex \<Rightarrow> bool" where
  "wf_regex Empty = True"
| "wf_regex (Atom cc) = True"
| "wf_regex (Seq r1 r2) = (wf_regex r1 \<and> wf_regex r2)"
| "wf_regex (Alt r1 r2) = (wf_regex r1 \<and> wf_regex r2)"
| "wf_regex (Quant cc mn mx greedy) = quant_ok mn mx"
| "wf_regex (Group n r) = wf_regex r"
| "wf_regex Bol = True"
| "wf_regex Eol = True"

text \<open>The parts of \<open>pathRegExp\<close>: the name and the extension inside group 3, what
  follows group 2, and what follows group 1.\<close>

definition re_name :: regex where
  "re_name = Alt (Quant (Lit CHR ''.'') 1 (Some 2) True)
            (Alt (Quant (NoneOf ''/'') 1 None False) Empty)"

definition re_ext :: regex where
  "re_ext = Alt (Seq (Atom (Lit CHR ''.'')) (Quant (NoneOf ''./'') 0 None True)) Empty"

definition re_tail :: regex where
  "re_tail = Seq (Group 3 (Seq re_name (Group 4 re_ext)))
                 (Seq (Quant (OneOf ''/'') 0 None True) Eol)"

definition re_dir_tail :: regex where
  "re_dir_tail = Seq (Group 2 (Quant AnyChar 0 None False)) re_tail"

text \<open>From index \<open>e\<close> on, the input is a run without separator followed by separators
  only: what the pattern requires after group 2.\<close>

definition tail_at :: "string \<Rightarrow> nat \<Rightarrow> bool" where
  "tail_at inp e =
     (\<exists>k. e + k \<le> length inp \<and> (\<forall>i<k. inp ! (e + i) \<noteq> CHR ''/'') \<and>
          (\<forall>i. e + k \<le> i \<and> i < length inp \<longrightarrow> inp ! i = CHR ''/''))"

section \<open>Strings, segments and the collapse procedure\<close>

lemma charAt_0_slash: "(charAt s 0 = ''/'') = (\<exists>t. s = CHR ''/'' # t)"
  by (cases s) (auto simp: charAt_def)

lemma isAbsolute_iff: "isAbsolute s = (\<exists>t. s = CHR ''/'' # t)"
  by (simp add: isAbsolute_def charAt_0_slash)

lemma js_slice_drop: "js_slice xs (int k) None = drop k xs"
  by (simp add: js_slice_def Let_def min_def)

lemma js_slice_1: "js_slice xs 1 None = drop 1 xs"
  using js_slice_drop [of xs 1] by simp

lemma js_slice_last: "js_slice xs (-1) None = (if xs = [] then [] else [last xs])"
proof (cases xs rule: rev_cases)
  case Nil
  then show ?thesis by (simp add: js_slice_def)
next
  case (snoc ys y)
  then show ?thesis by (simp add: js_slice_def Let_def max_def)
qed

lemma js_slice_butlast: "js_slice xs 0 (Some (-1)) = butlast xs"
proof (cases xs rule: rev_cases)
  case Nil
  then show ?thesis by (simp add: js_slice_def)
next
  case (snoc ys y)
  then show ?thesis by (simp add: js_slice_def Let_def max_def)
qed

lemma js_slice_take: "k \<le> length xs \<Longrightarrow> js_slice xs 0 (Some (int k)) = take k xs"
  by (simp add: js_slice_def Let_def min_def)

lemma split_sep_nonempty [simp]: "split_sep s \<noteq> []"
  by (induction s) (auto split: list.splits)

lemma split_sep_append: "split_sep (a @ CHR ''/'' # b) = split_sep a @ split_sep b"
  by (induction a) (auto split: list.splits)

lemma split_sep_noslash: "noslash s \<Longrightarrow> split_sep s = [s]"
  by (induction s) (auto simp: noslash_def)

lemma split_sep_parts: "x \<in> set (split_sep s) \<Longrightarrow> noslash x"
  by (induction s arbitrary: x) (auto simp: noslash_def split: if_splits list.splits)

lemma segs_Nil [simp]: "segs [] = []"
  by (simp add: segs_def filter_truthy_def)

lemma segs_append: "segs (a @ CHR ''/'' # b) = segs a @ segs b"
  by (simp add: segs_def filter_truthy_def split_sep_append)

lemma segs_slash [simp]: "segs (CHR ''/'' # b) = segs b"
  using segs_append [of "[]" b] by simp

lemma segs_snoc_slash [simp]: "segs (a @ ''/'') = segs a"
  using segs_append [of a "[]"] by simp

lemma segs_parts: "x \<in> set (segs s) \<Longrightarrow> x \<noteq> [] \<and> noslash x"
  by (auto simp: segs_def filter_truthy_def dest: split_sep_parts)

lemma good_parts_segs [simp]: "good_parts (segs s)"
  by (auto simp: good_parts_def dest: segs_parts)

lemma split_sep_join: "good_parts xs \<Longrightarrow> xs \<noteq> [] \<Longrightarrow> split_sep (join_sep xs) = xs"
proof (induction xs rule: join_sep.induct)
  case 1
  then show ?case by simp
next
  case (2 x)
  then show ?case by (simp add: good_parts_def split_sep_noslash)
next
  case (3 x y ys)
  then show ?case
    using split_sep_append [of x "join_sep (y # ys)"]
    by (simp add: good_parts_def split_sep_noslash)
qed

lemma segs_join: "good_parts xs \<Longrightarrow> segs (join_sep xs) = xs"
proof (cases "xs = []")
  case True
  then show ?thesis by simp
next
  case False
  assume g: "good_parts xs"
  from g False have "split_sep (join_sep xs) = xs" by (rule split_sep_join)
  with g show ?thesis by (simp add: segs_def filter_truthy_def good_parts_def)
qed

lemma join_sep_Nil_iff: "good_parts xs \<Longrightarrow> (join_sep xs = []) = (xs = [])"
  by (induction xs rule: join_sep.induct) (auto simp: good_parts_def)

lemma join_sep_hd: "good_parts xs \<Longrightarrow> xs \<noteq> [] \<Longrightarrow> hd (join_sep xs) = hd (hd xs)"
  by (induction xs rule: join_sep.induct) (auto simp: good_parts_def)

lemma join_sep_last: "good_parts xs \<Longrightarrow> xs \<noteq> [] \<Longrightarrow> last (join_sep xs) = last (last xs)"
  by (induction xs rule: join_sep.induct) (auto simp: good_parts_def join_sep_Nil_iff)

lemma scan_nscan:
  "n \<le> length parts \<Longrightarrow>
   normalizeArray_scan parts n up =
     (case nscan (rev (take n parts)) up of (k, u) \<Rightarrow> (k @ drop n parts, u))"
proof (induction n arbitrary: parts up)
  case 0
  then show ?case by simp
next
  case (Suc n)
  then have n: "n < length parts" by simp
  have tk: "take (Suc n) parts = take n parts @ [parts ! n]"
    using n by (simp add: take_Suc_conv_app_nth)
  have dr: "drop n parts = parts ! n # drop (Suc n) parts"
    using n by (simp add: Cons_nth_drop_Suc)
  have len: "n \<le> length (splice1 parts n)"
    using n by (simp add: splice1_def)
  have t2: "take n (splice1 parts n) = take n parts"
    using n by (simp add: splice1_def)
  have d2: "drop n (splice1 parts n) = drop (Suc n) parts"
    using n by (simp add: splice1_def)
  show ?case
    using Suc.IH [OF len] Suc.IH [of parts] n
    by (simp add: tk t2 d2 dr Let_def split: prod.splits)
qed

lemma nscan_append:
  "nscan (a @ b) up =
     (case nscan a up of (k2, u2) \<Rightarrow> (case nscan b u2 of (k1, u1) \<Rightarrow> (k1 @ k2, u1)))"
  by (induction a arbitrary: up) (auto split: prod.splits)

lemma nscan_subset: "set (fst (nscan xs up)) \<subseteq> set xs - {''.'', ''..''}"
proof (induction xs arbitrary: up)
  case Nil
  then show ?case by simp
next
  case (Cons x xs)
  obtain k u where ku: "nscan xs up = (k, u)" by (cases "nscan xs up")
  have "set k \<subseteq> set xs - {''.'', ''..''}"
    using Cons.IH [of up] ku by simp
  moreover have "set (fst (nscan xs (up + 1))) \<subseteq> set xs - {''.'', ''..''}"
    by (rule Cons.IH)
  moreover have "set (fst (nscan xs (up - 1))) \<subseteq> set xs - {''.'', ''..''}"
    by (rule Cons.IH)
  ultimately show ?case
    using ku by auto
qed

lemma nscan_dotfree [simp]: "dotfree (fst (nscan xs up))"
  using nscan_subset [of xs up] by (auto simp: dotfree_def)

lemma nscan_dotfree_id: "dotfree xs \<Longrightarrow> nscan (rev xs) 0 = (xs, 0)"
  by (induction xs rule: rev_induct) (auto simp: dotfree_def)

lemma nscan_ups: "nscan (replicate k ''..'') up = ([], up + k)"
  by (induction k arbitrary: up) auto

lemma nscan_up_fst:
  "fst (nscan xs k) = take (length (fst (nscan xs 0)) - k) (fst (nscan xs 0))"
proof (induction xs arbitrary: k)
  case Nil
  then show ?case by simp
next
  case (Cons x xs)
  show ?case
  proof (cases "x = ''.''")
    case True
    then show ?thesis using Cons.IH [of k] by simp
  next
    case nd: False
    show ?thesis
    proof (cases "x = ''..''")
      case True
      then show ?thesis
        using Cons.IH [of "k + 1"] Cons.IH [of 1] by (simp add: min_def)
    next
      case False
      show ?thesis
      proof (cases "k = 0")
        case True
        then show ?thesis by simp
      next
        case k: False
        then show ?thesis
          using nd False Cons.IH [of "k - 1"] by (simp split: prod.splits)
      qed
    qed
  qed
qed

lemma unshift_ups_eq: "unshift_ups parts up = replicate up ''..'' @ parts"
  by (induction up arbitrary: parts) (auto simp: replicate_app_Cons_same)

lemma normalizeArray_eq:
  "normalizeArray parts allow =
     (case nscan (rev parts) 0 of (k, u) \<Rightarrow> if allow then replicate u ''..'' @ k else k)"
  by (simp add: normalizeArray_def scan_nscan unshift_ups_eq split: prod.splits)

lemma normalizeArray_abs: "normalizeArray parts False = fst (nscan (rev parts) 0)"
  by (simp add: normalizeArray_eq split: prod.splits)

lemma good_parts_nscan: "good_parts xs \<Longrightarrow> good_parts (fst (nscan xs up))"
  using nscan_subset [of xs up] by (auto simp: good_parts_def)

lemma good_parts_normalizeArray: "good_parts xs \<Longrightarrow> good_parts (normalizeArray xs allow)"
proof -
  assume g: "good_parts xs"
  obtain k u where ku: "nscan (rev xs) 0 = (k, u)" by (cases "nscan (rev xs) 0")
  have "good_parts (rev xs)" using g by (simp add: good_parts_def)
  then have "good_parts k" using good_parts_nscan [of "rev xs" 0] ku by simp
  then show ?thesis
    by (auto simp: normalizeArray_eq ku good_parts_def noslash_def)
qed

lemma resolve_loop_done: "resolve_loop args i rp True = Inr (rp, True)"
  by (simp add: resolve_loop.simps [of args i rp True])

lemma resolve_loop_root: "resolve_loop args (-1) rp False = Inr (''/'' @ ''/'' @ rp, True)"
  by (simp add: resolve_loop.simps [of args "-1" rp False] resolve_loop_done charAt_def)

lemma resolve_loop_string:
  "0 \<le> i \<Longrightarrow> args ! nat i = JString p \<Longrightarrow>
   resolve_loop args i rp False =
     (if p = [] then resolve_loop args (i - 1) rp False
      else if isAbsolute p then Inr (p @ ''/'' @ rp, True)
      else resolve_loop args (i - 1) (p @ ''/'' @ rp) False)"
  by (simp add: resolve_loop.simps [of args i rp False] resolve_loop_done isAbsolute_def)

lemma resolve_loop_other:
  "0 \<le> i \<Longrightarrow> \<forall>p. args ! nat i \<noteq> JString p \<Longrightarrow> resolve_loop args i rp False = Inl TypeError"
  by (cases "args ! nat i") (simp_all add: resolve_loop.simps [of args i rp False])

lemma resolve_loop_strings:
  "n \<le> length ss \<Longrightarrow> \<exists>rp'. resolve_loop (map JString ss) (int n - 1) rp False = Inr (rp', True)"
proof (induction n arbitrary: rp)
  case 0
  then show ?case by (simp add: resolve_loop_root)
next
  case (Suc n)
  then have n: "n < length ss" by simp
  have nth: "map JString ss ! nat (int (Suc n) - 1) = JString (ss ! n)"
    using n by simp
  have step: "int (Suc n) - 1 - 1 = int n - 1" by simp
  have le: "n \<le> length ss" using n by simp
  show ?case
    using Suc.IH [OF le, of rp] Suc.IH [OF le, of "ss ! n @ ''/'' @ rp"]
    by (simp only: resolve_loop_string [OF _ nth] step split: if_splits) auto
qed

lemma resolve_strings:
  "\<exists>rp. resolve (map JString ss) = Inr (''/'' @ join_sep (normalizeArray (segs rp) False))"
proof -
  obtain rp where "resolve_loop (map JString ss) (int (length ss) - 1) [] False = Inr (rp, True)"
    using resolve_loop_strings [of "length ss" ss "[]"] by auto
  then have "resolve (map JString ss) = Inr (''/'' @ join_sep (normalizeArray (segs rp) False))"
    by (simp add: resolve_def segs_def)
  then show ?thesis by blast
qed

lemma resolve_of_loop:
  "resolve_loop args (int (length args) - 1) [] False = Inr (rp, True) \<Longrightarrow>
   resolve args = Inr (''/'' @ join_sep (normalizeArray (segs rp) False))"
  by (simp add: resolve_def segs_def)

lemma resolve1: "resolve [JString a] = Inr (''/'' @ join_sep (normalizeArray (segs a) False))"
proof -
  let ?rp = "(if a = [] then ''//'' else if isAbsolute a then a @ ''/'' else ''//'' @ a @ ''/'')"
  have "resolve_loop [JString a] (int (length [JString a]) - 1) [] False = Inr (?rp, True)"
    by (simp add: resolve_loop_string [of 0 _ a] resolve_loop_root)
  moreover have "segs ?rp = segs a" by simp
  ultimately show ?thesis
    using resolve_of_loop by metis
qed

lemma resolve2:
  assumes nb: "\<not> isAbsolute b"
  shows "resolve [JString a, JString b] =
           Inr (''/'' @ join_sep (normalizeArray (segs a @ segs b) False))"
proof -
  let ?args = "[JString a, JString b]"
  let ?rb = "(if b = [] then [] else b @ ''/'')"
  let ?rp = "(if a = [] then ''//'' @ ?rb else if isAbsolute a then a @ ''/'' @ ?rb
              else ''//'' @ a @ ''/'' @ ?rb)"
  have s0: "resolve_loop ?args 0 rp False =
        (if a = [] then Inr (''//'' @ rp, True)
         else if isAbsolute a then Inr (a @ ''/'' @ rp, True)
         else Inr (''//'' @ a @ ''/'' @ rp, True))" for rp
    by (simp add: resolve_loop_string [of 0 _ a] resolve_loop_root)
  have s1: "resolve_loop ?args 1 [] False =
        (if b = [] then resolve_loop ?args 0 [] False
         else resolve_loop ?args 0 (b @ ''/'') False)"
    using nb by (simp add: resolve_loop_string [of 1 _ b])
  have loop: "resolve_loop ?args (int (length ?args) - 1) [] False = Inr (?rp, True)"
    unfolding s0 using s1 unfolding s0 by simp
  have rb: "segs ?rb = segs b" by simp
  have "segs ?rp = segs a @ segs ?rb"
    using segs_append [of a ?rb] by simp
  with rb have "segs ?rp = segs a @ segs b" by simp
  with loop show ?thesis
    using resolve_of_loop by metis
qed

lemma trim_good: "good_parts xs \<Longrightarrow> xs \<noteq> [] \<Longrightarrow> trim xs = xs"
proof -
  assume g: "good_parts xs" and ne: "xs \<noteq> []"
  have h: "xs ! 0 \<noteq> []" using g ne by (cases xs) (auto simp: good_parts_def)
  have l: "xs ! (length xs - 1) \<noteq> []"
    using g ne last_conv_nth [of xs] last_in_set [of xs] by (auto simp: good_parts_def)
  have s: "trim_start xs 0 = 0"
    using h ne by (simp add: trim_start.simps [of xs 0])
  have "nat (int (length xs) - 1) = length xs - 1" by simp
  then have e: "trim_end xs (int (length xs) - 1) = int (length xs) - 1"
    using l ne by (simp add: trim_end.simps [of xs "int (length xs) - 1"])
  show ?thesis
    using ne js_slice_take [of "length xs" xs] by (simp add: trim_def s e)
qed

lemma trim_empty_piece: "trim [[]] = []"
  by code_simp

lemma trim_split_join: "good_parts xs \<Longrightarrow> trim (split_sep (join_sep xs)) = xs"
  by (cases "xs = []") (simp_all add: trim_empty_piece split_sep_join trim_good)

lemma shared_loop_prefix:
  "s \<le> len \<Longrightarrow> len \<le> length lhs \<Longrightarrow> len \<le> length rhs \<Longrightarrow> take s lhs = take s rhs \<Longrightarrow>
   s \<le> shared_loop lhs rhs len s \<and> shared_loop lhs rhs len s \<le> len \<and>
   take (shared_loop lhs rhs len s) lhs = take (shared_loop lhs rhs len s) rhs"
proof (induction lhs rhs len s rule: shared_loop.induct)
  case (1 lhs rhs len shared)
  show ?case
  proof (cases "shared < len \<and> lhs ! shared = rhs ! shared")
    case True
    then have "take (shared + 1) lhs = take (shared + 1) rhs"
      using "1.prems" by (simp add: take_Suc_conv_app_nth)
    then show ?thesis
      using True "1.IH" "1.prems" by (simp add: shared_loop.simps [of lhs rhs len shared])
  next
    case False
    then show ?thesis
      using "1.prems" by (auto simp: shared_loop.simps [of lhs rhs len shared])
  qed
qed

lemma shared_loop_same_aux: "s \<le> len \<Longrightarrow> ys = xs \<Longrightarrow> shared_loop xs ys len s = len"
proof (induction xs ys len s rule: shared_loop.induct)
  case (1 lhs rhs len shared)
  show ?case
  proof (cases "shared < len")
    case True
    then show ?thesis
      using "1.IH" "1.prems" by (subst shared_loop.simps) simp
  next
    case False
    then show ?thesis
      using "1.prems" by (subst shared_loop.simps) simp
  qed
qed

lemma shared_loop_same: "shared_loop xs xs len 0 = len"
  by (simp add: shared_loop_same_aux)

lemma push_ups_eq: "push_ups lhs i result = result @ replicate (length lhs - i) ''..''"
proof (induction lhs i result rule: push_ups.induct)
  case (1 lhs i result)
  show ?case
  proof (cases "i < length lhs")
    case True
    then have "length lhs - i = Suc (length lhs - (i + 1))" by simp
    then show ?thesis
      using True "1.IH" by (simp add: push_ups.simps [of lhs i result])
  next
    case False
    then show ?thesis by (simp add: push_ups.simps [of lhs i result])
  qed
qed

lemma good_resolved_parts [simp]: "good_parts (resolved_parts p)"
  by (simp add: resolved_parts_def good_parts_normalizeArray)

lemma dotfree_resolved_parts [simp]: "dotfree (resolved_parts p)"
  by (simp add: resolved_parts_def normalizeArray_abs)

lemma relative_eq:
  "relative from to =
     Inr (join_sep (replicate (length (resolved_parts from)
                      - shared_loop (resolved_parts from) (resolved_parts to)
                          (min (length (resolved_parts from)) (length (resolved_parts to))) 0) ''..''
                    @ drop (shared_loop (resolved_parts from) (resolved_parts to)
                          (min (length (resolved_parts from)) (length (resolved_parts to))) 0)
                        (resolved_parts to)))"
  by (simp add: relative_def resolve1 js_slice_1 js_slice_drop trim_split_join push_ups_eq
        resolved_parts_def [symmetric] Let_def)

lemma good_parts_append: "good_parts (xs @ ys) = (good_parts xs \<and> good_parts ys)"
  by (auto simp: good_parts_def)

lemma good_parts_ups: "good_parts (replicate k ''..'')"
  by (simp add: good_parts_def noslash_def)

lemma good_parts_drop: "good_parts xs \<Longrightarrow> good_parts (drop k xs)"
  by (auto simp: good_parts_def dest: in_set_dropD)

lemma dotfree_drop: "dotfree xs \<Longrightarrow> dotfree (drop k xs)"
  by (auto simp: dotfree_def dest: in_set_dropD)

lemma join_sep_not_absolute: "good_parts xs \<Longrightarrow> \<not> isAbsolute (join_sep xs)"
proof (cases "xs = []")
  case True
  then show ?thesis by (simp add: isAbsolute_iff)
next
  case False
  assume g: "good_parts xs"
  then have "hd (join_sep xs) = hd (hd xs)" using False by (rule join_sep_hd)
  moreover have "hd xs \<noteq> [] \<and> noslash (hd xs)"
    using g False by (cases xs) (auto simp: good_parts_def)
  ultimately have "hd (join_sep xs) \<noteq> CHR ''/''"
    by (cases "hd xs") (auto simp: noslash_def)
  then show ?thesis by (auto simp: isAbsolute_iff)
qed

lemma normalize_back:
  "dotfree rest \<Longrightarrow> k \<le> length (resolved_parts a) \<Longrightarrow>
   normalizeArray (segs a @ replicate k ''..'' @ rest) False =
     take (length (resolved_parts a) - k) (resolved_parts a) @ rest"
proof -
  assume d: "dotfree rest" and k: "k \<le> length (resolved_parts a)"
  have "nscan (rev rest @ replicate k ''..'' @ rev (segs a)) 0 =
        (case nscan (rev (segs a)) k of (k1, u1) \<Rightarrow> (k1 @ rest, u1))"
    using nscan_ups [of k 0]
    by (simp add: nscan_append [of "rev rest"] nscan_append [of "replicate k ''..''"]
          nscan_dotfree_id [OF d] split: prod.splits)
  then have "normalizeArray (segs a @ replicate k ''..'' @ rest) False =
             fst (nscan (rev (segs a)) k) @ rest"
    by (simp add: normalizeArray_abs split: prod.splits)
  then show ?thesis
    using nscan_up_fst [of "rev (segs a)" k]
    by (simp add: resolved_parts_def normalizeArray_abs)
qed

lemma relative_roundtrip:
  "\<exists>rel. relative from to = Inr rel \<and>
     resolve [JString from, JString rel] = resolve [JString to]"
proof -
  let ?lhs = "resolved_parts from" and ?rhs = "resolved_parts to"
  let ?len = "min (length ?lhs) (length ?rhs)"
  let ?s = "shared_loop ?lhs ?rhs ?len 0"
  let ?rest = "drop ?s ?rhs"
  let ?parts = "replicate (length ?lhs - ?s) ''..'' @ ?rest"
  have sh: "?s \<le> ?len \<and> take ?s ?lhs = take ?s ?rhs"
    using shared_loop_prefix [of 0 ?len ?lhs ?rhs] by simp
  have g: "good_parts ?parts"
    by (simp add: good_parts_append good_parts_ups good_parts_drop)
  have rel: "relative from to = Inr (join_sep ?parts)"
    by (rule relative_eq)
  have "resolve [JString from, JString (join_sep ?parts)] =
        Inr (''/'' @ join_sep (normalizeArray (segs from @ segs (join_sep ?parts)) False))"
    by (rule resolve2 [OF join_sep_not_absolute [OF g]])
  also have "segs (join_sep ?parts) = ?parts" by (rule segs_join [OF g])
  also have "normalizeArray (segs from @ ?parts) False =
             take (length ?lhs - (length ?lhs - ?s)) ?lhs @ ?rest"
    by (rule normalize_back) (simp_all add: dotfree_drop)
  also have "take (length ?lhs - (length ?lhs - ?s)) ?lhs = take ?s ?rhs"
    using sh by simp
  also have "take ?s ?rhs @ ?rest = ?rhs" by simp
  finally have "resolve [JString from, JString (join_sep ?parts)] = resolve [JString to]"
    by (simp add: resolve1 resolved_parts_def)
  with rel show ?thesis by blast
qed

lemma relative_same:
  "resolve [JString from] = resolve [JString to] \<Longrightarrow> relative from to = Inr []"
proof -
  assume "resolve [JString from] = resolve [JString to]"
  then have "join_sep (resolved_parts from) = join_sep (resolved_parts to)"
    by (simp add: resolve1 resolved_parts_def)
  then have "segs (join_sep (resolved_parts from)) = segs (join_sep (resolved_parts to))"
    by simp
  then have eq: "resolved_parts from = resolved_parts to"
    by (simp add: segs_join)
  show ?thesis
    by (simp add: relative_eq eq shared_loop_same)
qed

lemma endsWithSlash_iff: "endsWithSlash p = (p \<noteq> [] \<and> last p = CHR ''/'')"
  by (simp add: endsWithSlash_def js_slice_last)

lemma normalize_eq:
  "normalize p =
     (if isAbsolute p
      then ''/'' @ (if normalizeArray (segs p) False = [] then []
                    else join_sep (normalizeArray (segs p) False)
                           @ (if endsWithSlash p then ''/'' else []))
      else (if normalizeArray (segs p) True = [] then ''.''
            else join_sep (normalizeArray (segs p) True))
           @ (if endsWithSlash p then ''/'' else []))"
  by (cases "isAbsolute p")
     (simp_all add: normalize_def Let_def segs_def [symmetric] endsWithSlash_def [symmetric]
        join_sep_Nil_iff good_parts_normalizeArray)

lemma normalizeArray_idem:
  "normalizeArray (normalizeArray xs allow) allow = normalizeArray xs allow"
proof -
  obtain k u where ku: "nscan (rev xs) 0 = (k, u)" by (cases "nscan (rev xs) 0")
  have d: "dotfree k" using nscan_dotfree [of "rev xs" 0] ku by simp
  have "nscan (rev k @ replicate u ''..'') 0 = (k, u)"
    using nscan_ups [of u 0] by (simp add: nscan_append nscan_dotfree_id [OF d])
  then show ?thesis
    by (simp add: normalizeArray_eq ku nscan_dotfree_id [OF d])
qed

lemma join_sep_last_noslash:
  "good_parts xs \<Longrightarrow> xs \<noteq> [] \<Longrightarrow> last (join_sep xs) \<noteq> CHR ''/''"
proof -
  assume g: "good_parts xs" and ne: "xs \<noteq> []"
  have l: "last xs \<noteq> [] \<and> noslash (last xs)"
    using g last_in_set [OF ne] by (auto simp: good_parts_def)
  then have "last (last xs) \<noteq> CHR ''/''"
    unfolding noslash_def by (metis last_in_set)
  then show ?thesis by (simp add: join_sep_last [OF g ne])
qed

lemma isAbsolute_Cons [simp]: "isAbsolute (c # t) = (c = CHR ''/'')"
  by (auto simp: isAbsolute_iff)

lemma isAbsolute_Nil [simp]: "\<not> isAbsolute []"
  by (simp add: isAbsolute_iff)

lemma isAbsolute_append: "a \<noteq> [] \<Longrightarrow> isAbsolute (a @ b) = isAbsolute a"
  by (cases a) simp_all

lemma normalize_absolute: "isAbsolute (normalize p) = isAbsolute p"
proof (cases "isAbsolute p")
  case True
  then show ?thesis by (simp add: normalize_eq)
next
  case False
  let ?parts = "normalizeArray (segs p) True"
  have g: "good_parts ?parts" by (simp add: good_parts_normalizeArray)
  have "\<not> isAbsolute (join_sep ?parts)" by (rule join_sep_not_absolute [OF g])
  moreover have "join_sep ?parts \<noteq> [] \<or> ?parts = []"
    using join_sep_Nil_iff [OF g] by auto
  ultimately show ?thesis
    using False by (auto simp: normalize_eq isAbsolute_append)
qed

lemma endsWithSlash_snoc [simp]: "endsWithSlash (a @ ''/'')"
  by (simp add: endsWithSlash_iff)

lemma normalize_trailing:
  "endsWithSlash (normalize p) = (endsWithSlash p \<or> normalize p = ''/'')"
proof -
  let ?a = "normalizeArray (segs p) False" and ?r = "normalizeArray (segs p) True"
  have ga: "good_parts ?a" and gr: "good_parts ?r"
    by (simp_all add: good_parts_normalizeArray)
  have la: "?a \<noteq> [] \<Longrightarrow> join_sep ?a \<noteq> [] \<and> last (join_sep ?a) \<noteq> CHR ''/''"
    using join_sep_last_noslash [OF ga] join_sep_Nil_iff [OF ga] by simp
  have lr: "?r \<noteq> [] \<Longrightarrow> join_sep ?r \<noteq> [] \<and> last (join_sep ?r) \<noteq> CHR ''/''"
    using join_sep_last_noslash [OF gr] join_sep_Nil_iff [OF gr] by simp
  show ?thesis
  proof (cases "isAbsolute p")
    case True
    then have "p \<noteq> []" by auto
    then show ?thesis
      using True la by (cases "?a = []") (auto simp: normalize_eq endsWithSlash_iff)
  next
    case False
    then show ?thesis
      using lr by (cases "?r = []") (auto simp: normalize_eq endsWithSlash_iff)
  qed
qed

lemma segs_dot [simp]: "segs ''.'' = [''.'']"
  by (simp add: segs_def filter_truthy_def)

lemma segs_dot_slash [simp]: "segs ''./'' = [''.'']"
  by (simp add: segs_def filter_truthy_def)

lemma normalizeArray_dot [simp]: "normalizeArray [''.''] allow = []"
  by (simp add: normalizeArray_eq)

lemma normalizeArray_Nil [simp]: "normalizeArray [] allow = []"
  by (simp add: normalizeArray_eq)

lemma normalize_segs:
  "segs (normalize p) =
     (if \<not> isAbsolute p \<and> normalizeArray (segs p) True = [] then [''.'']
      else normalizeArray (segs p) (\<not> isAbsolute p))"
  by (auto simp: normalize_eq segs_join good_parts_normalizeArray)

lemma normalize_idempotent: "normalize (normalize p) = normalize p"
proof -
  let ?q = "normalize p"
  have ab: "isAbsolute ?q = isAbsolute p" by (rule normalize_absolute)
  show ?thesis
  proof (cases "isAbsolute p")
    case True
    have sg: "segs ?q = normalizeArray (segs p) False"
      using True by (simp add: normalize_segs)
    show ?thesis
    proof (cases "normalizeArray (segs p) False = []")
      case e: True
      then have "?q = ''/''" using True by (simp add: normalize_eq)
      then show ?thesis by (simp add: normalize_eq)
    next
      case False
      then have "?q \<noteq> ''/''"
        using True by (auto simp: normalize_eq join_sep_Nil_iff good_parts_normalizeArray)
      then have "endsWithSlash ?q = endsWithSlash p" by (simp add: normalize_trailing)
      then show ?thesis
        using True ab False
        by (simp add: normalize_eq [of ?q] sg normalizeArray_idem) (simp add: normalize_eq)
    qed
  next
    case na: False
    show ?thesis
    proof (cases "normalizeArray (segs p) True = []")
      case True
      then have "?q = ''.'' \<or> ?q = ''./''" using na by (auto simp: normalize_eq)
      moreover have "normalize ''.'' = ''.''" by code_simp
      moreover have "normalize ''./'' = ''./''" by code_simp
      ultimately show ?thesis by auto
    next
      case False
      have sg: "segs ?q = normalizeArray (segs p) True"
        using na False by (simp add: normalize_segs)
      have "?q \<noteq> ''/''" using na ab by auto
      then have "endsWithSlash ?q = endsWithSlash p" by (simp add: normalize_trailing)
      then show ?thesis
        using na ab
        by (simp add: normalize_eq [of ?q] sg normalizeArray_idem) (simp add: normalize_eq)
    qed
  qed
qed

section \<open>Type errors of the variadic functions\<close>

lemma resolve_loop_error:
  "n \<le> length args \<Longrightarrow>
   (resolve_loop args (int n - 1) rp False = Inl TypeError) =
   (\<exists>i<n. \<not> is_string (args ! i) \<and> (\<forall>j. i < j \<and> j < n \<longrightarrow> \<not> is_absolute_arg (args ! j)))"
proof (induction n arbitrary: rp)
  case 0
  then show ?case by (simp add: resolve_loop_root)
next
  case (Suc n)
  then have le: "n \<le> length args" by simp
  have step: "int (Suc n) - 1 - 1 = int n - 1" by simp
  let ?R = "\<lambda>m. \<exists>i<m. \<not> is_string (args ! i) \<and>
                 (\<forall>j. i < j \<and> j < m \<longrightarrow> \<not> is_absolute_arg (args ! j))"
  show ?case
  proof (cases "is_string (args ! n)")
    case False
    then have "\<forall>p. args ! nat (int (Suc n) - 1) \<noteq> JString p"
      by (auto simp: is_string_def)
    then have "resolve_loop args (int (Suc n) - 1) rp False = Inl TypeError"
      by (intro resolve_loop_other) simp_all
    moreover have "?R (Suc n)"
      using False by (intro exI [of _ n]) auto
    ultimately show ?thesis by simp
  next
    case True
    then obtain p where p: "args ! n = JString p"
      by (cases "args ! n") (auto simp: is_string_def)
    then have nth: "args ! nat (int (Suc n) - 1) = JString p" by simp
    have unf: "resolve_loop args (int (Suc n) - 1) rp False =
       (if p = [] then resolve_loop args (int n - 1) rp False
        else if isAbsolute p then Inr (p @ ''/'' @ rp, True)
        else resolve_loop args (int n - 1) (p @ ''/'' @ rp) False)"
      using resolve_loop_string [OF _ nth, of rp] step by simp
    have abs: "is_absolute_arg (args ! n) = isAbsolute p"
      by (simp add: p is_absolute_arg_def)
    have ext: "?R (Suc n) = (\<not> isAbsolute p \<and> ?R n)"
    proof
      assume "?R (Suc n)"
      then obtain i where i: "i < Suc n" "\<not> is_string (args ! i)"
        "\<forall>j. i < j \<and> j < Suc n \<longrightarrow> \<not> is_absolute_arg (args ! j)" by blast
      then have "i \<noteq> n" using True by auto
      then have "i < n" using i(1) by simp
      then show "\<not> isAbsolute p \<and> ?R n"
        using i abs by auto
    next
      assume a: "\<not> isAbsolute p \<and> ?R n"
      then obtain i where i: "i < n" "\<not> is_string (args ! i)"
        "\<forall>j. i < j \<and> j < n \<longrightarrow> \<not> is_absolute_arg (args ! j)" by blast
      have "\<forall>j. i < j \<and> j < Suc n \<longrightarrow> \<not> is_absolute_arg (args ! j)"
      proof (intro allI impI)
        fix j assume "i < j \<and> j < Suc n"
        then show "\<not> is_absolute_arg (args ! j)"
          using i(3) a abs by (cases "j = n") auto
      qed
      then show "?R (Suc n)"
        using i(1,2) by (intro exI [of _ i]) simp
    qed
    show ?thesis
      using Suc.IH [OF le, of rp] Suc.IH [OF le, of "p @ ''/'' @ rp"]
      unfolding unf ext by (cases "p = []") (auto simp: isAbsolute_iff)
  qed
qed

lemma resolve_error_iff:
  "(resolve args = Inl TypeError) =
   (resolve_loop args (int (length args) - 1) [] False = Inl TypeError)"
  by (cases "resolve_loop args (int (length args) - 1) [] False")
     (auto simp: resolve_def Let_def split: prod.splits)

lemma join_filter_error:
  "(join_filter args = Inl TypeError) = (\<exists>a \<in> set args. \<not> is_string a)"
  by (induction args rule: join_filter.induct)
     (auto simp: is_string_def split: sum.splits)

lemma join_error_iff: "(join args = Inl TypeError) = (\<exists>a \<in> set args. \<not> is_string a)"
  using join_filter_error [of args]
  by (cases "join_filter args") (auto simp: join_def)

section \<open>The backtracking matcher and the pattern of \<open>parse\<close>\<close>

lemma quant_ok_pred: "quant_ok mn mx \<Longrightarrow> quant_ok (mn - 1) (map_option (\<lambda>m. m - 1) mx)"
  by (cases mx) (auto simp: quant_ok_def)

lemma quant_ok_pred0: "quant_ok 0 (map_option (\<lambda>m. m - 1) mx)"
  by (cases mx) (auto simp: quant_ok_def)

lemma repeat_sound:
  "repeat_matcher cc mn mx greedy inp x c = Some z \<Longrightarrow> quant_ok mn mx \<Longrightarrow>
   \<exists>k. c (fst x + k, snd x) = Some z \<and> mn \<le> k \<and>
       (case mx of None \<Rightarrow> True | Some m \<Rightarrow> k \<le> m) \<and>
       (\<forall>i<k. fst x + i < length inp \<and> class_matches cc (inp ! (fst x + i)))"
proof (induction cc mn mx greedy inp x c rule: repeat_matcher.induct)
  case (1 cc mn mx greedy inp e cap c)
  let ?ok = "e < length inp \<and> class_matches cc (inp ! e)"
  let ?mx' = "map_option (\<lambda>m. m - 1) mx"
  have here: "c (e, cap) = Some z \<Longrightarrow> mn = 0 \<Longrightarrow> ?case"
    by (rule exI [of _ 0]) (simp split: option.splits)
  have step: "?case"
    if ok: "?ok" and mx: "mx \<noteq> Some 0"
      and r: "\<exists>k. c (e + 1 + k, cap) = Some z \<and> mn - 1 \<le> k \<and>
                (case ?mx' of None \<Rightarrow> True | Some m \<Rightarrow> k \<le> m) \<and>
                (\<forall>i<k. e + 1 + i < length inp \<and> class_matches cc (inp ! (e + 1 + i)))"
  proof -
    from r obtain k where k: "c (e + 1 + k, cap) = Some z" "mn - 1 \<le> k"
      "case ?mx' of None \<Rightarrow> True | Some m \<Rightarrow> k \<le> m"
      "\<forall>i<k. e + 1 + i < length inp \<and> class_matches cc (inp ! (e + 1 + i))" by blast
    have chars: "\<forall>i<Suc k. e + i < length inp \<and> class_matches cc (inp ! (e + i))"
    proof (intro allI impI)
      fix i assume "i < Suc k"
      then show "e + i < length inp \<and> class_matches cc (inp ! (e + i))"
        using ok k(4) by (cases i) auto
    qed
    have bound: "case mx of None \<Rightarrow> True | Some m \<Rightarrow> Suc k \<le> m"
      using k(3) mx by (cases mx) auto
    show ?thesis
      using k(1,2) chars bound by (intro exI [of _ "Suc k"]) auto
  qed
  note p = "1.prems"(1) [unfolded repeat_matcher.simps [of cc mn mx greedy inp e cap c]]
  show ?case
  proof (cases "mx = Some 0")
    case True
    then have "c (e, cap) = Some z" using p by simp
    then show ?thesis
      using p True "1.prems"(2) by (intro exI [of _ 0]) (auto simp: quant_ok_def)
  next
    case mx: False
    show ?thesis
    proof (cases "mn \<noteq> 0")
      case True
      then have ok: "?ok" and
        r: "repeat_matcher cc (mn - 1) ?mx' greedy inp (e + 1, cap) c = Some z"
        using p mx by (auto split: if_splits)
      show ?thesis
        using step [OF ok mx] "1.IH"(1) [OF mx True ok r quant_ok_pred [OF "1.prems"(2)]] by simp
    next
      case mn: False
      then have mn1: "mn - 1 = 0" by simp
      show ?thesis
      proof (cases greedy)
        case False
        show ?thesis
        proof (cases "c (e, cap)")
          case (Some a)
          then have "c (e, cap) = Some z"
            using p mx mn False by simp
          then show ?thesis using here mn by simp
        next
          case None
          then have ok: "?ok" and
            r: "repeat_matcher cc 0 ?mx' greedy inp (e + 1, cap) c = Some z"
            using p mx mn False by (auto split: if_splits)
          show ?thesis
            using step [OF ok mx] "1.IH"(2) [OF mx mn False None ok r quant_ok_pred0] mn1 by simp
        qed
      next
        case True
        show ?thesis
        proof (cases "?ok \<and> repeat_matcher cc 0 ?mx' greedy inp (e + 1, cap) c = Some z")
          case t: True
          then have ok: "?ok" and
            r: "repeat_matcher cc 0 ?mx' greedy inp (e + 1, cap) c = Some z" by simp_all
          have g: "\<not> \<not> greedy" using True by simp
          show ?thesis
            using step [OF ok mx] "1.IH"(3) [OF mx mn g ok r quant_ok_pred0] mn1 by simp
        next
          case f: False
          then have "c (e, cap) = Some z"
            using p mx mn True by (auto split: if_splits option.splits)
          then show ?thesis using here mn by simp
        qed
      qed
    qed
  qed
qed

lemma repeat_complete:
  "c (fst x + k, snd x) = Some z \<Longrightarrow> mn \<le> k \<Longrightarrow>
   (case mx of None \<Rightarrow> True | Some m \<Rightarrow> k \<le> m) \<Longrightarrow>
   (\<forall>i<k. fst x + i < length inp \<and> class_matches cc (inp ! (fst x + i))) \<Longrightarrow>
   \<exists>z'. repeat_matcher cc mn mx greedy inp x c = Some z'"
proof (induction cc mn mx greedy inp x c arbitrary: k rule: repeat_matcher.induct)
  case (1 cc mn mx greedy inp e cap c)
  let ?ok = "e < length inp \<and> class_matches cc (inp ! e)"
  let ?mx' = "map_option (\<lambda>m. m - 1) mx"
  note unf = repeat_matcher.simps [of cc mn mx greedy inp e cap c]
  have ck: "c (e + k, cap) = Some z" using "1.prems"(1) by simp
  have pos: "?ok \<and> c (e + 1 + (k - 1), cap) = Some z \<and> mn - 1 \<le> k - 1 \<and>
             (case ?mx' of None \<Rightarrow> True | Some m \<Rightarrow> k - 1 \<le> m) \<and>
             (\<forall>i<k - 1. e + 1 + i < length inp \<and> class_matches cc (inp ! (e + 1 + i)))"
    if k: "k \<noteq> 0"
  proof -
    have "0 < k" using k by simp
    then have ok: "?ok" using "1.prems"(4) by force
    have sh: "\<forall>i<k - 1. e + 1 + i < length inp \<and> class_matches cc (inp ! (e + 1 + i))"
    proof (intro allI impI)
      fix i assume "i < k - 1"
      then have "Suc i < k" by simp
      then show "e + 1 + i < length inp \<and> class_matches cc (inp ! (e + 1 + i))"
        using "1.prems"(4) by force
    qed
    have b: "case ?mx' of None \<Rightarrow> True | Some m \<Rightarrow> k - 1 \<le> m"
      using "1.prems"(3) by (cases mx) auto
    show ?thesis
      using ok sh b ck k "1.prems"(2) by simp
  qed
  show ?case
  proof (cases "mx = Some 0")
    case True
    then have "k = 0" using "1.prems"(3) by simp
    then show ?thesis using ck True by (subst unf) simp
  next
    case mx: False
    show ?thesis
    proof (cases "mn \<noteq> 0")
      case True
      then have k: "k \<noteq> 0" using "1.prems"(2) by simp
      have "\<exists>z'. repeat_matcher cc (mn - 1) ?mx' greedy inp (e + 1, cap) c = Some z'"
        using pos [OF k] by (intro "1.IH"(1) [OF mx True, of "k - 1"]) simp_all
      then show ?thesis
        using mx True pos [OF k] by (subst unf) simp
    next
      case mn: False
      show ?thesis
      proof (cases "k = 0")
        case True
        then have "c (e, cap) = Some z" using ck by simp
        then show ?thesis
          using mx mn by (subst unf) (auto split: option.splits)
      next
        case k: False
        show ?thesis
        proof (cases greedy)
          case False
          show ?thesis
          proof (cases "c (e, cap)")
            case (Some a)
            then show ?thesis using mx mn False by (subst unf) simp
          next
            case None
            have "\<exists>z'. repeat_matcher cc 0 ?mx' greedy inp (e + 1, cap) c = Some z'"
              using pos [OF k] by (intro "1.IH"(2) [OF mx mn False None, of "k - 1"]) simp_all
            then show ?thesis
              using mx mn False None pos [OF k] by (subst unf) simp
          qed
        next
          case True
          then have g: "\<not> \<not> greedy" by simp
          have "\<exists>z'. repeat_matcher cc 0 ?mx' greedy inp (e + 1, cap) c = Some z'"
            using pos [OF k] by (intro "1.IH"(3) [OF mx mn g, of "k - 1"]) simp_all
          then show ?thesis
            using mx mn True pos [OF k] by (subst unf) auto
        qed
      qed
    qed
  qed
qed

lemma lazy_first:
  "repeat_matcher cc mn mx greedy inp x c = Some z \<Longrightarrow> mn = 0 \<Longrightarrow> mx = None \<Longrightarrow> \<not> greedy \<Longrightarrow>
   \<exists>k. c (fst x + k, snd x) = Some z \<and> (\<forall>i<k. c (fst x + i, snd x) = None) \<and>
       (\<forall>i<k. fst x + i < length inp \<and> class_matches cc (inp ! (fst x + i)))"
proof (induction cc mn mx greedy inp x c rule: repeat_matcher.induct)
  case (1 cc mn mx greedy inp e cap c)
  note p = "1.prems"(1) [unfolded repeat_matcher.simps [of cc mn mx greedy inp e cap c]]
  have mx: "mx \<noteq> Some 0" and mn: "\<not> mn \<noteq> 0" and mx': "map_option (\<lambda>m. m - 1) mx = None"
    using "1.prems" by simp_all
  show ?case
  proof (cases "c (e, cap)")
    case (Some a)
    then have "c (e, cap) = Some z" using p "1.prems" by simp
    then show ?thesis by (intro exI [of _ 0]) simp
  next
    case None
    then have ok: "e < length inp \<and> class_matches cc (inp ! e)" and
      r: "repeat_matcher cc 0 (map_option (\<lambda>m. m - 1) mx) greedy inp (e + 1, cap) c = Some z"
      using p "1.prems" by (auto split: if_splits)
    from "1.IH"(2) [OF mx mn "1.prems"(4) None ok r _ mx' "1.prems"(4)]
    obtain k where k: "c (e + 1 + k, cap) = Some z" "\<forall>i<k. c (e + 1 + i, cap) = None"
      "\<forall>i<k. e + 1 + i < length inp \<and> class_matches cc (inp ! (e + 1 + i))" by auto
    have a: "\<forall>i<Suc k. c (e + i, cap) = None"
    proof (intro allI impI)
      fix i assume "i < Suc k"
      then show "c (e + i, cap) = None" using None k(2) by (cases i) auto
    qed
    have b: "\<forall>i<Suc k. e + i < length inp \<and> class_matches cc (inp ! (e + i))"
    proof (intro allI impI)
      fix i assume "i < Suc k"
      then show "e + i < length inp \<and> class_matches cc (inp ! (e + i))"
        using ok k(3) by (cases i) auto
    qed
    show ?thesis
      using k(1) a b by (intro exI [of _ "Suc k"]) simp
  qed
qed

lemma matcher_sound:
  "matcher r inp x c = Some z \<Longrightarrow> wf_regex r \<Longrightarrow> \<exists>y. can r inp x y \<and> c y = Some z"
proof (induction r arbitrary: x c)
  case Empty
  then show ?case by simp
next
  case (Atom cc)
  obtain e cap where x: "x = (e, cap)" by (cases x)
  from Atom.prems(1) have "e < length inp \<and> class_matches cc (inp ! e) \<and> c (e + 1, cap) = Some z"
    unfolding x by (simp split: if_splits)
  then show ?case unfolding x by simp
next
  case (Seq r1 r2)
  from Seq.prems have a: "matcher r1 inp x (\<lambda>y. matcher r2 inp y c) = Some z"
    and w1: "wf_regex r1" and w2: "wf_regex r2" by simp_all
  from Seq.IH(1) [OF a w1] obtain m where m: "can r1 inp x m" "matcher r2 inp m c = Some z"
    by blast
  from Seq.IH(2) [OF m(2) w2] obtain y where y: "can r2 inp m y" "c y = Some z"
    by blast
  from m(1) y have "can (Seq r1 r2) inp x y \<and> c y = Some z"
    unfolding can.simps by blast
  then show ?case by blast
next
  case (Alt r1 r2)
  from Alt.prems have w1: "wf_regex r1" and w2: "wf_regex r2" by simp_all
  show ?case
  proof (cases "matcher r1 inp x c")
    case None
    with Alt.prems(1) have "matcher r2 inp x c = Some z" by simp
    from Alt.IH(2) [OF this w2] show ?thesis unfolding can.simps by blast
  next
    case (Some a)
    with Alt.prems(1) have "matcher r1 inp x c = Some z" by simp
    from Alt.IH(1) [OF this w1] show ?thesis unfolding can.simps by blast
  qed
next
  case (Quant cc mn mx greedy)
  from Quant have r: "repeat_matcher cc mn mx greedy inp x c = Some z" and q: "quant_ok mn mx"
    by simp_all
  from repeat_sound [OF r q] obtain k where
    "c (fst x + k, snd x) = Some z" "mn \<le> k" "case mx of None \<Rightarrow> True | Some m \<Rightarrow> k \<le> m"
    "\<forall>i<k. fst x + i < length inp \<and> class_matches cc (inp ! (fst x + i))" by blast
  then have "can (Quant cc mn mx greedy) inp x (fst x + k, snd x) \<and>
             c (fst x + k, snd x) = Some z"
    unfolding can.simps by blast
  then show ?case by blast
next
  case (Group n r)
  obtain e cap where x: "x = (e, cap)" by (cases x)
  let ?c = "\<lambda>(e', cap'). c (e', cap'[n := Some (substring inp e e')])"
  from Group.prems have a: "matcher r inp (e, cap) ?c = Some z" and w: "wf_regex r"
    unfolding x by simp_all
  from Group.IH [OF a w] obtain m where m: "can r inp (e, cap) m" "?c m = Some z" by blast
  let ?y = "(fst m, (snd m)[n := Some (substring inp e (fst m))])"
  have "c ?y = Some z" using m(2) by (cases m) simp
  moreover have "can (Group n r) inp x ?y"
    unfolding x can.simps using m(1) by (intro exI [of _ m]) simp
  ultimately show ?case by blast
next
  case Bol
  obtain e cap where x: "x = (e, cap)" by (cases x)
  from Bol.prems(1) show ?case unfolding x by (simp split: if_splits)
next
  case Eol
  obtain e cap where x: "x = (e, cap)" by (cases x)
  from Eol.prems(1) show ?case unfolding x by (simp split: if_splits)
qed

lemma matcher_complete:
  "can r inp x y \<Longrightarrow> c y = Some z \<Longrightarrow> \<exists>z'. matcher r inp x c = Some z'"
proof (induction r arbitrary: x y c z)
  case Empty
  then show ?case by simp
next
  case (Atom cc)
  obtain e cap where x: "x = (e, cap)" by (cases x)
  from Atom.prems show ?case unfolding x by simp
next
  case (Seq r1 r2)
  from Seq.prems(1) obtain m where m: "can r1 inp x m" "can r2 inp m y"
    unfolding can.simps by blast
  from Seq.IH(2) [of m y c z, OF m(2) Seq.prems(2)]
  obtain z' where z': "matcher r2 inp m c = Some z'" by blast
  have "\<exists>z''. matcher r1 inp x (\<lambda>y. matcher r2 inp y c) = Some z''"
    by (rule Seq.IH(1) [of x m "\<lambda>y. matcher r2 inp y c" z', OF m(1) z'])
  then show ?case by simp
next
  case (Alt r1 r2)
  show ?case
  proof (cases "matcher r1 inp x c")
    case (Some a)
    then show ?thesis by simp
  next
    case None
    have "\<not> can r1 inp x y"
    proof
      assume "can r1 inp x y"
      from Alt.IH(1) [of x y c z, OF this Alt.prems(2)] None show False by simp
    qed
    with Alt.prems(1) have "can r2 inp x y" by simp
    from Alt.IH(2) [of x y c z, OF this Alt.prems(2)] None show ?thesis by simp
  qed
next
  case (Quant cc mn mx greedy)
  from Quant.prems(1) obtain k where k: "y = (fst x + k, snd x)" "mn \<le> k"
    "case mx of None \<Rightarrow> True | Some m \<Rightarrow> k \<le> m"
    "\<forall>i<k. fst x + i < length inp \<and> class_matches cc (inp ! (fst x + i))"
    unfolding can.simps by blast
  have "c (fst x + k, snd x) = Some z" using Quant.prems(2) k(1) by simp
  from repeat_complete [of c x k z mn mx inp cc greedy, OF this k(2) k(3) k(4)]
  show ?case by simp
next
  case (Group n r)
  obtain e cap where x: "x = (e, cap)" by (cases x)
  let ?c = "\<lambda>(e', cap'). c (e', cap'[n := Some (substring inp e e')])"
  from Group.prems(1) obtain m where m: "can r inp (e, cap) m"
    "y = (fst m, (snd m)[n := Some (substring inp e (fst m))])"
    unfolding x can.simps by auto
  have cm: "?c m = Some z" using Group.prems(2) m(2) by (cases m) simp
  have "\<exists>z'. matcher r inp (e, cap) ?c = Some z'"
    by (rule Group.IH [of "(e, cap)" m ?c z, OF m(1) cm])
  then show ?case unfolding x by simp
next
  case Bol
  obtain e cap where x: "x = (e, cap)" by (cases x)
  from Bol.prems show ?case unfolding x by simp
next
  case Eol
  obtain e cap where x: "x = (e, cap)" by (cases x)
  from Eol.prems show ?case unfolding x by simp
qed

lemma pathRegExp_eq:
  "pathRegExp =
     Seq Bol (Seq (Group 1 (Alt (Quant (Lit CHR ''/'') 0 (Some 1) True) Empty)) re_dir_tail)"
  by (simp add: pathRegExp_def re_dir_tail_def re_tail_def re_name_def re_ext_def)

lemma wf_re_tail: "wf_regex re_tail"
  by (simp add: re_tail_def re_name_def re_ext_def quant_ok_def)

lemma can_name:
  "can re_name inp (e, cap) y \<Longrightarrow>
   \<exists>k. y = (e + k, cap) \<and> (\<forall>i<k. e + i < length inp \<and> inp ! (e + i) \<noteq> CHR ''/'')"
  unfolding re_name_def can.simps by fastforce

lemma can_ext:
  "can re_ext inp (e, cap) y \<Longrightarrow>
   \<exists>k. y = (e + k, cap) \<and> (\<forall>i<k. e + i < length inp \<and> inp ! (e + i) \<noteq> CHR ''/'')"
proof -
  assume "can re_ext inp (e, cap) y"
  then consider (dot) k where "e < length inp" "inp ! e = CHR ''.''" "y = (e + 1 + k, cap)"
      "\<forall>i<k. e + 1 + i < length inp \<and> inp ! (e + 1 + i) \<noteq> CHR ''/''"
    | (none) "y = (e, cap)"
    unfolding re_ext_def can.simps by fastforce
  then show ?thesis
  proof cases
    case dot
    have "\<forall>i<Suc k. e + i < length inp \<and> inp ! (e + i) \<noteq> CHR ''/''"
    proof (intro allI impI)
      fix i assume "i < Suc k"
      then show "e + i < length inp \<and> inp ! (e + i) \<noteq> CHR ''/''"
        using dot(1,2,4) by (cases i) auto
    qed
    then show ?thesis using dot(3) by (intro exI [of _ "Suc k"]) simp
  next
    case none
    then show ?thesis by (intro exI [of _ 0]) simp
  qed
qed

lemma can_slashes_eol:
  "can (Seq (Quant (OneOf ''/'') 0 None True) Eol) inp (e, cap) y \<Longrightarrow>
   y = (length inp, cap) \<and> e \<le> length inp \<and>
   (\<forall>i. e \<le> i \<and> i < length inp \<longrightarrow> inp ! i = CHR ''/'')"
proof -
  assume "can (Seq (Quant (OneOf ''/'') 0 None True) Eol) inp (e, cap) y"
  then obtain k where k: "e + k = length inp" "y = (e + k, cap)"
    "\<forall>i<k. inp ! (e + i) = CHR ''/''"
    unfolding can.simps by fastforce
  have "\<forall>i. e \<le> i \<and> i < length inp \<longrightarrow> inp ! i = CHR ''/''"
  proof (intro allI impI)
    fix i assume a: "e \<le> i \<and> i < length inp"
    then have "i - e < k" using k(1) by arith
    then have "inp ! (e + (i - e)) = CHR ''/''" using k(3) by blast
    then show "inp ! i = CHR ''/''" using a by simp
  qed
  then show ?thesis using k by simp
qed

lemma can_SeqE:
  "can (Seq r1 r2) inp x y \<Longrightarrow> (\<And>m. can r1 inp x m \<Longrightarrow> can r2 inp m y \<Longrightarrow> P) \<Longrightarrow> P"
  by auto

lemma can_SeqI: "can r1 inp x m \<Longrightarrow> can r2 inp m y \<Longrightarrow> can (Seq r1 r2) inp x y"
  unfolding can.simps by blast

lemma can_GroupE:
  "can (Group n r) inp (e, cap) y \<Longrightarrow>
   (\<And>e' cap'. can r inp (e, cap) (e', cap') \<Longrightarrow>
      y = (e', cap'[n := Some (substring inp e e')]) \<Longrightarrow> P) \<Longrightarrow> P"
  by auto

lemma can_GroupI:
  "can r inp (e, cap) (e', cap') \<Longrightarrow>
   can (Group n r) inp (e, cap) (e', cap'[n := Some (substring inp e e')])"
  by (simp only: can.simps fst_conv snd_conv) (rule exI [of _ "(e', cap')"], simp)

lemma can_tail:
  assumes "can re_tail inp (e, cap) y"
  shows "\<exists>k x. y = (length inp, cap[4 := Some x, 3 := Some (substring inp e (e + k))]) \<and>
         e + k \<le> length inp \<and> (\<forall>i<k. inp ! (e + i) \<noteq> CHR ''/'') \<and>
         (\<forall>i. e + k \<le> i \<and> i < length inp \<longrightarrow> inp ! i = CHR ''/'')"
proof -
  from assms [unfolded re_tail_def] obtain m3 where
    g3: "can (Group 3 (Seq re_name (Group 4 re_ext))) inp (e, cap) m3" and
    s: "can (Seq (Quant (OneOf ''/'') 0 None True) Eol) inp m3 y"
    by (rule can_SeqE)
  from g3 obtain e3 cap3 where
    sq: "can (Seq re_name (Group 4 re_ext)) inp (e, cap) (e3, cap3)" and
    m3: "m3 = (e3, cap3[3 := Some (substring inp e e3)])"
    by (rule can_GroupE)
  from sq obtain m1 where
    n: "can re_name inp (e, cap) m1" and g4: "can (Group 4 re_ext) inp m1 (e3, cap3)"
    by (rule can_SeqE)
  from can_name [OF n] obtain k1 where k1: "m1 = (e + k1, cap)"
    "\<forall>i<k1. e + i < length inp \<and> inp ! (e + i) \<noteq> CHR ''/''" by blast
  from g4 [unfolded k1(1)] obtain e4 cap4 where
    x: "can re_ext inp (e + k1, cap) (e4, cap4)" and
    m4: "(e3, cap3) = (e4, cap4[4 := Some (substring inp (e + k1) e4)])"
    by (rule can_GroupE)
  from can_ext [OF x] obtain k2 where k2: "(e4, cap4) = (e + k1 + k2, cap)"
    "\<forall>i<k2. e + k1 + i < length inp \<and> inp ! (e + k1 + i) \<noteq> CHR ''/''" by blast
  let ?x = "substring inp (e + k1) (e + k1 + k2)"
  let ?cap = "cap[4 := Some ?x, 3 := Some (substring inp e (e + (k1 + k2)))]"
  have m3': "m3 = (e + (k1 + k2), ?cap)" using m3 m4 k2(1) by (simp add: add.assoc)
  from can_slashes_eol [OF s [unfolded m3']]
  have y: "y = (length inp, ?cap)" and le: "e + (k1 + k2) \<le> length inp" and
    sl: "\<forall>i. e + (k1 + k2) \<le> i \<and> i < length inp \<longrightarrow> inp ! i = CHR ''/''" by blast+
  have ns: "\<forall>i<k1 + k2. inp ! (e + i) \<noteq> CHR ''/''"
  proof (intro allI impI)
    fix i assume i: "i < k1 + k2"
    show "inp ! (e + i) \<noteq> CHR ''/''"
    proof (cases "i < k1")
      case True
      then show ?thesis using k1(2) by blast
    next
      case False
      then have "i - k1 < k2" using i by arith
      then have "inp ! (e + k1 + (i - k1)) \<noteq> CHR ''/''" using k2(2) by blast
      moreover have "e + k1 + (i - k1) = e + i" using False by arith
      ultimately show ?thesis by simp
    qed
  qed
  from y le ns sl show ?thesis by blast
qed

lemma tail_exists:
  assumes "tail_at inp e"
  shows "\<exists>y. can re_tail inp (e, cap) y"
proof -
  from assms obtain k where k: "e + k \<le> length inp" "\<forall>i<k. inp ! (e + i) \<noteq> CHR ''/''"
    "\<forall>i. e + k \<le> i \<and> i < length inp \<longrightarrow> inp ! i = CHR ''/''"
    unfolding tail_at_def by blast
  have name: "can re_name inp (e, cap) (e + k, cap)"
  proof (cases "k = 0")
    case True
    then show ?thesis by (simp add: re_name_def)
  next
    case False
    have "\<forall>i<k. e + i < length inp \<and> class_matches (NoneOf ''/'') (inp ! (e + i))"
      using k(1,2) by auto
    then have "can (Quant (NoneOf ''/'') 1 None False) inp (e, cap) (e + k, cap)"
      using False by (simp only: can.simps fst_conv snd_conv) (rule exI [of _ k], simp)
    then show ?thesis by (simp add: re_name_def)
  qed
  let ?cap4 = "cap[4 := Some (substring inp (e + k) (e + k))]"
  let ?cap3 = "?cap4[3 := Some (substring inp e (e + k))]"
  have "can re_ext inp (e + k, cap) (e + k, cap)"
    by (simp add: re_ext_def)
  then have ext: "can (Group 4 re_ext) inp (e + k, cap) (e + k, ?cap4)"
    by (rule can_GroupI)
  have "can (Seq re_name (Group 4 re_ext)) inp (e, cap) (e + k, ?cap4)"
    using name ext by (rule can_SeqI)
  then have g3: "can (Group 3 (Seq re_name (Group 4 re_ext))) inp (e, cap) (e + k, ?cap3)"
    by (rule can_GroupI)
  have "\<forall>i<length inp - (e + k). e + k + i < length inp \<and>
          class_matches (OneOf ''/'') (inp ! (e + k + i))"
  proof (intro allI impI conjI)
    fix i assume i: "i < length inp - (e + k)"
    then show l: "e + k + i < length inp" by arith
    then show "class_matches (OneOf ''/'') (inp ! (e + k + i))" using k(3) by simp
  qed
  then have q: "can (Quant (OneOf ''/'') 0 None True) inp (e + k, ?cap3) (length inp, ?cap3)"
    using k(1)
    by (simp only: can.simps fst_conv snd_conv)
       (rule exI [of _ "length inp - (e + k)"], simp)
  have "can Eol inp (length inp, ?cap3) (length inp, ?cap3)" by simp
  with q have "can (Seq (Quant (OneOf ''/'') 0 None True) Eol) inp (e + k, ?cap3)
                 (length inp, ?cap3)"
    by (rule can_SeqI)
  with g3 have "can re_tail inp (e, cap) (length inp, ?cap3)"
    unfolding re_tail_def by (rule can_SeqI)
  then show ?thesis by blast
qed

lemma dir_tail_unfold:
  "matcher re_dir_tail inp (e1, cap) Some =
     repeat_matcher AnyChar 0 None False inp (e1, cap)
       (\<lambda>(e', cap'). matcher re_tail inp (e', cap'[2 := Some (substring inp e1 e')]) Some)"
  by (simp add: re_dir_tail_def)

lemma tail_none:
  assumes "matcher re_tail inp (e, cap) Some = None"
  shows "\<not> tail_at inp e"
proof
  assume "tail_at inp e"
  from tail_exists [OF this, of cap] obtain y where y: "can re_tail inp (e, cap) y" by blast
  from matcher_complete [of re_tail inp "(e, cap)" y Some y, OF y] assms
  show False by simp
qed

lemma tail_some:
  assumes "matcher re_tail inp (e, cap) Some = Some z"
  shows "\<exists>k x. z = (length inp, cap[4 := Some x, 3 := Some (substring inp e (e + k))]) \<and>
           e + k \<le> length inp \<and> (\<forall>i<k. inp ! (e + i) \<noteq> CHR ''/'') \<and>
           (\<forall>i. e + k \<le> i \<and> i < length inp \<longrightarrow> inp ! i = CHR ''/'')"
proof -
  from matcher_sound [OF assms wf_re_tail] obtain y where
    y: "can re_tail inp (e, cap) y" "Some y = Some z" by blast
  then have yz: "y = z" by simp
  show ?thesis using can_tail [OF y(1)] unfolding yz .
qed

lemma tail_at_end: "tail_at inp (length inp)"
  unfolding tail_at_def by (intro exI [of _ 0]) auto

lemma dir_tail_exists:
  assumes "e1 \<le> length inp"
  shows "\<exists>z. matcher re_dir_tail inp (e1, cap) Some = Some z"
proof -
  let ?k = "length inp - e1"
  let ?cap2 = "cap[2 := Some (substring inp e1 (e1 + ?k))]"
  have "\<forall>i<?k. e1 + i < length inp \<and> class_matches AnyChar (inp ! (e1 + i))"
    by auto
  then have "can (Quant AnyChar 0 None False) inp (e1, cap) (e1 + ?k, cap)"
    by (simp only: can.simps fst_conv snd_conv) (rule exI [of _ ?k], simp)
  then have g2: "can (Group 2 (Quant AnyChar 0 None False)) inp (e1, cap) (e1 + ?k, ?cap2)"
    by (rule can_GroupI)
  have "e1 + ?k = length inp" using assms by simp
  then have "tail_at inp (e1 + ?k)" using tail_at_end by simp
  from tail_exists [OF this, of ?cap2] obtain y where
    "can re_tail inp (e1 + ?k, ?cap2) y" by blast
  with g2 have y: "can re_dir_tail inp (e1, cap) y"
    unfolding re_dir_tail_def by (rule can_SeqI)
  from matcher_complete [of re_dir_tail inp "(e1, cap)" y Some y, OF y]
  show ?thesis by simp
qed

lemma dir_tail_sound:
  assumes "matcher re_dir_tail inp (e1, cap) Some = Some z"
  shows "\<exists>e2 k x. e1 \<le> e2 \<and>
           z = (length inp, cap[2 := Some (substring inp e1 e2), 4 := Some x,
                                3 := Some (substring inp e2 (e2 + k))]) \<and>
           e2 + k \<le> length inp \<and> (\<forall>i<k. inp ! (e2 + i) \<noteq> CHR ''/'') \<and>
           (\<forall>i. e2 + k \<le> i \<and> i < length inp \<longrightarrow> inp ! i = CHR ''/'') \<and>
           (\<forall>i. e1 \<le> i \<and> i < e2 \<longrightarrow> \<not> tail_at inp i)"
proof -
  let ?c = "\<lambda>(e', cap'). matcher re_tail inp (e', cap'[2 := Some (substring inp e1 e')]) Some"
  have r: "repeat_matcher AnyChar 0 None False inp (e1, cap) ?c = Some z"
    using assms by (simp only: dir_tail_unfold)
  from lazy_first [OF r] obtain j where
    j: "?c (fst (e1, cap) + j, snd (e1, cap)) = Some z"
       "\<forall>i<j. ?c (fst (e1, cap) + i, snd (e1, cap)) = None"
    by blast
  let ?cap2 = "cap[2 := Some (substring inp e1 (e1 + j))]"
  have "matcher re_tail inp (e1 + j, ?cap2) Some = Some z" using j(1) by simp
  from tail_some [OF this] obtain k x where
    k: "z = (length inp, ?cap2[4 := Some x, 3 := Some (substring inp (e1 + j) (e1 + j + k))])"
       "e1 + j + k \<le> length inp" "\<forall>i<k. inp ! (e1 + j + i) \<noteq> CHR ''/''"
       "\<forall>i. e1 + j + k \<le> i \<and> i < length inp \<longrightarrow> inp ! i = CHR ''/''" by blast
  have mn: "\<forall>i. e1 \<le> i \<and> i < e1 + j \<longrightarrow> \<not> tail_at inp i"
  proof (intro allI impI)
    fix i assume i: "e1 \<le> i \<and> i < e1 + j"
    then have "i - e1 < j" by arith
    then have "?c (e1 + (i - e1), cap) = None" using j(2) by simp
    moreover have "e1 + (i - e1) = i" using i by arith
    ultimately have "matcher re_tail inp (i, cap[2 := Some (substring inp e1 i)]) Some = None"
      by simp
    then show "\<not> tail_at inp i" by (rule tail_none)
  qed
  have "e1 \<le> e1 + j" by simp
  with k mn show ?thesis by blast
qed

lemma opt_slash:
  "repeat_matcher (Lit CHR ''/'') 0 (Some 1) True inp (0, cap) c =
     (case (if 0 < length inp \<and> inp ! 0 = CHR ''/'' then c (1, cap) else None) of
        Some z \<Rightarrow> Some z
      | None \<Rightarrow> c (0, cap))"
  apply (subst repeat_matcher.simps)
  apply simp
  apply (subst repeat_matcher.simps)
  apply simp
  done

lemma matcher_pathRegExp_step:
  "matcher pathRegExp inp (0, cap) Some =
     (case (if 0 < length inp \<and> inp ! 0 = CHR ''/''
            then matcher re_dir_tail inp (1, cap[1 := Some (substring inp 0 1)]) Some
            else None) of
        Some z \<Rightarrow> Some z
      | None \<Rightarrow> matcher re_dir_tail inp (0, cap[1 := Some (substring inp 0 0)]) Some)"
  unfolding pathRegExp_eq matcher.simps opt_slash by (auto split: option.splits)

lemma matcher_pathRegExp:
  "matcher pathRegExp inp (0, cap) Some =
     matcher re_dir_tail inp
       (if isAbsolute inp then 1 else 0,
        cap[1 := Some (substring inp 0 (if isAbsolute inp then 1 else 0))]) Some"
proof (cases "isAbsolute inp")
  case True
  then obtain t where t: "inp = CHR ''/'' # t" by (auto simp: isAbsolute_iff)
  then have "1 \<le> length inp" by simp
  from dir_tail_exists [OF this, of "cap[1 := Some (substring inp 0 1)]"]
  obtain z where z: "matcher re_dir_tail inp (1, cap[1 := Some (substring inp 0 1)]) Some = Some z"
    by blast
  have c: "0 < length inp \<and> inp ! 0 = CHR ''/''" using t by simp
  show ?thesis
    unfolding matcher_pathRegExp_step using True c z by (auto split: option.splits)
next
  case False
  then have "\<not> (0 < length inp \<and> inp ! 0 = CHR ''/'')"
    by (cases inp) (auto simp: isAbsolute_iff)
  then show ?thesis
    unfolding matcher_pathRegExp_step using False by (auto split: option.splits)
qed

lemma exec_pathRegExp:
  "matcher pathRegExp p (0, replicate 5 None) Some = Some (e, cap) \<Longrightarrow>
   exec pathRegExp 4 p = Some (cap[0 := Some (substring p 0 e)])"
  by (simp add: exec_def exec_loop.simps [of pathRegExp 4 p 0])

lemma parse_index:
  "\<exists>e2 k x. (if isAbsolute p then 1 else 0) \<le> e2 \<and> e2 + k \<le> length p \<and>
     parse p = Inr [Some (substring p 0 (if isAbsolute p then 1 else 0)),
                    Some (substring p (if isAbsolute p then 1 else 0) e2),
                    Some (substring p e2 (e2 + k)), Some x] \<and>
     (\<forall>i<k. p ! (e2 + i) \<noteq> CHR ''/'') \<and>
     (\<forall>i. e2 + k \<le> i \<and> i < length p \<longrightarrow> p ! i = CHR ''/'') \<and>
     (\<forall>i. (if isAbsolute p then 1 else 0) \<le> i \<and> i < e2 \<longrightarrow> \<not> tail_at p i)"
proof -
  let ?e1 = "if isAbsolute p then 1 else 0 :: nat"
  let ?init = "replicate 5 None :: string option list"
  let ?first = "?init[1 := Some (substring p 0 ?e1)]"
  have le: "?e1 \<le> length p" by (auto simp: isAbsolute_iff)
  from dir_tail_exists [OF le, of ?first] obtain z where
    z: "matcher re_dir_tail p (?e1, ?first) Some = Some z" by blast
  from dir_tail_sound [OF z] obtain e2 k x where
    f: "?e1 \<le> e2"
       "z = (length p, ?first[2 := Some (substring p ?e1 e2), 4 := Some x,
                             3 := Some (substring p e2 (e2 + k))])"
       "e2 + k \<le> length p" "\<forall>i<k. p ! (e2 + i) \<noteq> CHR ''/''"
       "\<forall>i. e2 + k \<le> i \<and> i < length p \<longrightarrow> p ! i = CHR ''/''"
       "\<forall>i. ?e1 \<le> i \<and> i < e2 \<longrightarrow> \<not> tail_at p i" by blast
  let ?fin = "?first[2 := Some (substring p ?e1 e2), 4 := Some x,
                    3 := Some (substring p e2 (e2 + k))]"
  have "matcher pathRegExp p (0, ?init) Some = Some (length p, ?fin)"
    using z f(2) by (simp only: matcher_pathRegExp)
  then have "exec pathRegExp 4 p = Some (?fin[0 := Some (substring p 0 (length p))])"
    by (rule exec_pathRegExp)
  moreover have "?fin[0 := Some (substring p 0 (length p))] =
      [Some (substring p 0 (length p)), Some (substring p 0 ?e1), Some (substring p ?e1 e2),
       Some (substring p e2 (e2 + k)), Some x]"
    by (simp add: numeral_eq_Suc)
  ultimately have "parse p = Inr [Some (substring p 0 ?e1), Some (substring p ?e1 e2),
                                  Some (substring p e2 (e2 + k)), Some x]"
    by (simp add: parse_def js_slice_1)
  with f(1,3,4,5,6) show ?thesis by blast
qed

lemma drop_split: "a \<le> b \<Longrightarrow> drop a p = take (b - a) (drop a p) @ drop b p"
proof -
  assume "a \<le> b"
  then have "drop (b - a) (drop a p) = drop b p" by simp
  then show ?thesis
    using append_take_drop_id [of "b - a" "drop a p"] by simp
qed

lemma parse_decomp:
  "\<exists>root dir base ext sl.
     parse p = Inr [Some root, Some dir, Some base, Some ext] \<and>
     p = root @ dir @ base @ sl \<and>
     root = (if isAbsolute p then ''/'' else []) \<and>
     noslash base \<and> set sl \<subseteq> {CHR ''/''} \<and>
     (dir \<noteq> [] \<longrightarrow> last dir = CHR ''/'' \<and> base \<noteq> [])"
proof -
  let ?e1 = "if isAbsolute p then 1 else 0 :: nat"
  from parse_index [of p] obtain e2 k x where
    f: "?e1 \<le> e2" "e2 + k \<le> length p"
       "parse p = Inr [Some (substring p 0 ?e1), Some (substring p ?e1 e2),
                       Some (substring p e2 (e2 + k)), Some x]"
       "\<forall>i<k. p ! (e2 + i) \<noteq> CHR ''/''"
       "\<forall>i. e2 + k \<le> i \<and> i < length p \<longrightarrow> p ! i = CHR ''/''"
       "\<forall>i. ?e1 \<le> i \<and> i < e2 \<longrightarrow> \<not> tail_at p i" by blast
  let ?root = "take ?e1 p" and ?dir = "take (e2 - ?e1) (drop ?e1 p)"
  let ?base = "take k (drop e2 p)" and ?sl = "drop (e2 + k) p"
  have sub: "substring p 0 ?e1 = ?root" "substring p ?e1 e2 = ?dir"
    "substring p e2 (e2 + k) = ?base"
    by (simp_all add: substring_def)
  have d1: "drop ?e1 p = ?dir @ drop e2 p"
    using f(1) by (rule drop_split)
  have d2: "drop e2 p = ?base @ ?sl"
    using drop_split [of e2 "e2 + k" p] by simp
  have "p = ?root @ drop ?e1 p" by simp
  then have dec: "p = ?root @ ?dir @ ?base @ ?sl" using d1 d2 by metis
  have root: "?root = (if isAbsolute p then ''/'' else [])"
    by (auto simp: isAbsolute_iff)
  have lb: "length ?base = k" using f(2) by simp
  have ns: "noslash ?base"
    unfolding noslash_def
  proof
    assume "CHR ''/'' \<in> set ?base"
    then obtain i where i: "i < length ?base" "?base ! i = CHR ''/''"
      by (auto simp: in_set_conv_nth)
    then have "i < k" using lb by simp
    moreover have "?base ! i = p ! (e2 + i)" using i(1) f(2) by simp
    ultimately show False using f(4) i(2) by auto
  qed
  have sl: "set ?sl \<subseteq> {CHR ''/''}"
  proof
    fix c assume "c \<in> set ?sl"
    then obtain i where i: "i < length ?sl" "?sl ! i = c"
      by (auto simp: in_set_conv_nth)
    then have "e2 + k + i < length p" by simp
    moreover have "?sl ! i = p ! (e2 + k + i)" using i(1) f(2) by simp
    ultimately have "c = CHR ''/''" using f(5) i(2) by auto
    then show "c \<in> {CHR ''/''}" by simp
  qed
  have mn: "?dir \<noteq> [] \<longrightarrow> last ?dir = CHR ''/'' \<and> ?base \<noteq> []"
  proof
    assume ne: "?dir \<noteq> []"
    then have lt: "?e1 < e2" by (auto split: if_splits)
    have e2p: "e2 \<le> length p" using f(2) by simp
    have ld: "length ?dir = e2 - ?e1" using e2p by simp
    have "last ?dir = ?dir ! (length ?dir - 1)" using ne by (rule last_conv_nth)
    also have "\<dots> = p ! (?e1 + (e2 - ?e1 - 1))"
      using lt e2p by (simp only: ld) (simp add: nth_take)
    also have "?e1 + (e2 - ?e1 - 1) = e2 - 1" using lt by arith
    finally have last: "last ?dir = p ! (e2 - 1)" .
    have nt: "\<not> tail_at p (e2 - 1)" using f(6) lt by auto
    have sl1: "p ! (e2 - 1) = CHR ''/''"
    proof (rule ccontr)
      assume a: "p ! (e2 - 1) \<noteq> CHR ''/''"
      have "\<forall>i<Suc k. p ! (e2 - 1 + i) \<noteq> CHR ''/''"
      proof (intro allI impI)
        fix i assume "i < Suc k"
        then show "p ! (e2 - 1 + i) \<noteq> CHR ''/''"
        proof (cases i)
          case 0
          then show ?thesis using a by simp
        next
          case (Suc j)
          with \<open>i < Suc k\<close> have "j < k" by simp
          then have "p ! (e2 + j) \<noteq> CHR ''/''" using f(4) by blast
          moreover have "e2 - 1 + i = e2 + j" using Suc lt by arith
          ultimately show ?thesis by simp
        qed
      qed
      moreover have "e2 - 1 + Suc k = e2 + k" using lt by arith
      ultimately have "tail_at p (e2 - 1)"
        unfolding tail_at_def using f(2,5) by (intro exI [of _ "Suc k"]) simp
      with nt show False by simp
    qed
    have "k \<noteq> 0"
    proof
      assume k0: "k = 0"
      have "\<forall>i. e2 - 1 \<le> i \<and> i < length p \<longrightarrow> p ! i = CHR ''/''"
      proof (intro allI impI)
        fix i assume i: "e2 - 1 \<le> i \<and> i < length p"
        show "p ! i = CHR ''/''"
        proof (cases "i = e2 - 1")
          case True
          then show ?thesis using sl1 by simp
        next
          case False
          then have "e2 + k \<le> i" using i k0 by arith
          then show ?thesis using f(5) i by blast
        qed
      qed
      moreover have "e2 - 1 + 0 \<le> length p" using e2p by arith
      ultimately have "tail_at p (e2 - 1)"
        unfolding tail_at_def by (intro exI [of _ 0]) simp
      with nt show False by simp
    qed
    then have "?base \<noteq> []" using lb by auto
    with last sl1 show "last ?dir = CHR ''/'' \<and> ?base \<noteq> []" by simp
  qed
  from f(3) dec root ns sl mn show ?thesis
    unfolding sub by blast
qed

section \<open>Decomposition of a path\<close>

lemma parse_dirname:
  "parse p = Inr [Some root, Some dir, Some base, Some ext] \<Longrightarrow>
   dirname p = Inr (if root = [] \<and> dir = [] then ''.'' else root @ butlast dir)"
  by (cases "dir = []")
     (simp_all add: dirname_def js_index_def truthy_def to_string_def js_slice_butlast Let_def)

lemma parse_basename:
  "parse p = Inr [Some root, Some dir, Some base, Some ext] \<Longrightarrow>
   basename p None = Inr (Some base)"
  by (simp add: basename_def js_index_def truthy_def)

lemma parse_basename_ext:
  "parse p = Inr [Some root, Some dir, Some base, Some ext] \<Longrightarrow>
   \<exists>s. basename p e = Inr (Some s)"
  by (simp add: basename_def js_index_def truthy_def Let_def)

lemma parse_extname:
  "parse p = Inr [Some root, Some dir, Some base, Some ext] \<Longrightarrow>
   extname p = Inr (Some ext)"
  by (simp add: extname_def js_index_def)

lemma segs_slashes: "set sl \<subseteq> {CHR ''/''} \<Longrightarrow> segs (a @ sl) = segs a"
proof (induction sl rule: rev_induct)
  case Nil
  then show ?case by simp
next
  case (snoc c sl)
  then have c: "c = CHR ''/''" and sl: "set sl \<subseteq> {CHR ''/''}" by auto
  have "segs ((a @ sl) @ ''/'') = segs (a @ sl)" by (rule segs_snoc_slash)
  then show ?case using snoc.IH [OF sl] c by simp
qed

lemma normalizeArray_dot_Cons: "normalizeArray (''.'' # xs) allow = normalizeArray xs allow"
  by (simp add: normalizeArray_eq nscan_append split: prod.splits)

lemma noslash_not_absolute: "noslash b \<Longrightarrow> \<not> isAbsolute b"
  by (cases b) (auto simp: noslash_def)

lemma dirname_basename_resolve:
  "\<exists>d b. dirname p = Inr d \<and> basename p None = Inr (Some b) \<and>
         resolve [JString d, JString b] = resolve [JString p]"
proof -
  from parse_decomp [of p] obtain root dir base ext sl where
    f: "parse p = Inr [Some root, Some dir, Some base, Some ext]"
       "p = root @ dir @ base @ sl"
       "root = (if isAbsolute p then ''/'' else [])"
       "noslash base" "set sl \<subseteq> {CHR ''/''}"
       "dir \<noteq> [] \<longrightarrow> last dir = CHR ''/'' \<and> base \<noteq> []" by blast
  let ?d = "if root = [] \<and> dir = [] then ''.'' else root @ butlast dir"
  have sp: "segs p = segs (root @ dir @ base)"
    using segs_slashes [OF f(5), of "root @ dir @ base"] f(2) by simp
  have eq: "normalizeArray (segs ?d @ segs base) False = normalizeArray (segs p) False"
  proof (cases "dir = []")
    case True
    show ?thesis
    proof (cases "root = []")
      case r: True
      then show ?thesis using True sp by (simp add: normalizeArray_dot_Cons)
    next
      case False
      then have "root = ''/''" using f(3) by (simp split: if_splits)
      then show ?thesis using True sp by simp
    qed
  next
    case False
    then have "dir = butlast dir @ ''/''"
      using f(6) append_butlast_last_id [of dir] by simp
    then have "root @ dir @ base = (root @ butlast dir) @ CHR ''/'' # base"
      by (metis append.assoc append_Cons append_Nil)
    then have "segs (root @ dir @ base) = segs (root @ butlast dir) @ segs base"
      by (simp only: segs_append)
    then show ?thesis using False sp by simp
  qed
  have "resolve [JString ?d, JString base] =
        Inr (''/'' @ join_sep (normalizeArray (segs ?d @ segs base) False))"
    by (rule resolve2 [OF noslash_not_absolute [OF f(4)]])
  then have "resolve [JString ?d, JString base] = resolve [JString p]"
    by (simp only: eq resolve1)
  then show ?thesis
    using parse_dirname [OF f(1)] parse_basename [OF f(1)] by blast
qed

lemma join_strings: "\<exists>s. join (map JString args) = Inr s"
proof -
  have "\<not> (\<exists>a \<in> set (map JString args). \<not> is_string a)"
    by (auto simp: is_string_def)
  then have "join (map JString args) \<noteq> Inl TypeError"
    by (simp add: join_error_iff)
  then show ?thesis
    by (cases "join (map JString args)") (auto intro: error.exhaust)
qed

lemma normalize_nonempty: "normalize p \<noteq> []"
proof (cases "isAbsolute p")
  case True
  then show ?thesis by (simp add: normalize_eq)
next
  case False
  have "good_parts (normalizeArray (segs p) True)" by (simp add: good_parts_normalizeArray)
  then show ?thesis
    using False by (simp add: normalize_eq join_sep_Nil_iff)
qed

section \<open>Claims on resolve, normalize, join and relative\<close>

text \<open>
  Claim C1. For all strings \<open>from\<close> and \<open>to\<close>, \<open>relative(from, to)\<close> returns a string
  \<open>rel\<close> with \<open>resolve(from, rel) = resolve(to)\<close>; and when \<open>from\<close> and \<open>to\<close> resolve to the
  same absolute path, \<open>relative(from, to)\<close> is the empty string.
\<close>

theorem C1_relative_roundtrip:
  "(\<exists>rel. relative from to = Inr rel \<and>
          resolve [JString from, JString rel] = resolve [JString to]) \<and>
   (resolve [JString from] = resolve [JString to] \<longrightarrow> relative from to = Inr [])"
  using relative_roundtrip [of "from" "to"] relative_same [of "from" "to"] by blast

theorem C1_relative_roundtrip_witness:
  "resolve [JString ''/a/./b''] = resolve [JString ''/a/b/''] \<and>
   relative ''/a/./b'' ''/a/b/'' = Inr [] \<and>
   relative ''/a/b/c'' ''/a/d'' = Inr ''../../d'' \<and>
   resolve [JString ''/a/b/c'', JString ''../../d''] = resolve [JString ''/a/d'']"
proof -
  have h: "resolve [JString ''/a/./b''] = resolve [JString ''/a/b/'']" by code_simp
  then have "relative ''/a/./b'' ''/a/b/'' = Inr []"
    using C1_relative_roundtrip [of "''/a/./b''" "''/a/b/''"] by blast
  moreover have "relative ''/a/b/c'' ''/a/d'' = Inr ''../../d''" by code_simp
  moreover have "resolve [JString ''/a/b/c'', JString ''../../d''] = resolve [JString ''/a/d'']"
    by code_simp
  ultimately show ?thesis using h by simp
qed

text \<open>
  Claim C3, as the code has it. \<open>join\<close> throws the TypeError exactly when some argument
  is not a string, wherever it stands. \<open>resolve\<close> scans its arguments from the last one and
  stops at the first absolute string, so it throws exactly when some argument is not a
  string and no argument to its right is a string starting with \<open>/\<close>.
\<close>

theorem C3_type_errors:
  "(join args = Inl TypeError) = (\<exists>a \<in> set args. \<not> is_string a) \<and>
   (resolve args = Inl TypeError) =
     (\<exists>i<length args. \<not> is_string (args ! i) \<and>
        (\<forall>j. i < j \<and> j < length args \<longrightarrow> \<not> is_absolute_arg (args ! j)))"
  using resolve_loop_error [of "length args" args "[]"]
  by (simp add: join_error_iff resolve_error_iff)

theorem C3_type_errors_witness:
  "join [JNumber 5, JString ''/a''] = Inl TypeError \<and>
   resolve [JString ''/a'', JNumber 5, JString ''b''] = Inl TypeError"
proof -
  have "\<exists>a \<in> set [JNumber 5, JString ''/a'']. \<not> is_string a"
    by (simp add: is_string_def)
  then have j: "join [JNumber 5, JString ''/a''] = Inl TypeError"
    using C3_type_errors [of "[JNumber 5, JString ''/a'']"] by blast
  let ?args = "[JString ''/a'', JNumber 5, JString ''b'']"
  have "1 < length ?args \<and> \<not> is_string (?args ! 1) \<and>
        (\<forall>j. 1 < j \<and> j < length ?args \<longrightarrow> \<not> is_absolute_arg (?args ! j))"
  proof (intro conjI allI impI)
    fix j assume "1 < j \<and> j < length ?args"
    then have "j = 2" by simp
    then show "\<not> is_absolute_arg (?args ! j)"
      by (simp add: is_absolute_arg_def)
  qed (simp_all add: is_string_def)
  then have "\<exists>i<length ?args. \<not> is_string (?args ! i) \<and>
        (\<forall>j. i < j \<and> j < length ?args \<longrightarrow> \<not> is_absolute_arg (?args ! j))"
    by blast
  then have "resolve ?args = Inl TypeError"
    using C3_type_errors [of ?args] by blast
  with j show ?thesis by simp
qed

text \<open>
  The claim C3 as the specification states it fails for \<open>resolve\<close>: in
  \<open>resolve(5, '/a')\<close> the first argument is not a string, the scan stops at \<open>/a\<close> before
  reading it, and the call returns \<open>/a\<close>.
\<close>

theorem C3_resolve_skips_counterexample:
  "\<not> is_string (JNumber 5) \<and> resolve [JNumber 5, JString ''/a''] = Inr ''/a''"
proof -
  have "resolve [JNumber 5, JString ''/a''] = Inr ''/a''" by code_simp
  then show ?thesis by (simp add: is_string_def)
qed

text \<open>
  Claim C4. \<open>normalize\<close> is idempotent: \<open>normalize(normalize(p)) = normalize(p)\<close> for every
  string \<open>p\<close>.
\<close>

theorem C4_normalize_idempotent: "normalize (normalize p) = normalize p"
  by (rule normalize_idempotent)

text \<open>
  Claim C5. For every list of string arguments \<open>resolve\<close> returns an absolute path; for
  every string \<open>p\<close>, \<open>normalize(p)\<close> is absolute exactly when \<open>p\<close> is; and \<open>isAbsolute(s)\<close>
  holds exactly when the first character of \<open>s\<close> is \<open>/\<close>, so the empty string is not
  absolute.
\<close>

theorem C5_absoluteness:
  "(\<exists>r. resolve (map JString args) = Inr r \<and> isAbsolute r) \<and>
   isAbsolute (normalize p) = isAbsolute p \<and>
   isAbsolute s = (s \<noteq> [] \<and> hd s = CHR ''/'') \<and>
   \<not> isAbsolute []"
proof -
  obtain rp where "resolve (map JString args) =
      Inr (''/'' @ join_sep (normalizeArray (segs rp) False))"
    using resolve_strings [of args] by blast
  then have "\<exists>r. resolve (map JString args) = Inr r \<and> isAbsolute r" by simp
  moreover have "isAbsolute s = (s \<noteq> [] \<and> hd s = CHR ''/'')"
    by (cases s) simp_all
  ultimately show ?thesis by (simp add: normalize_absolute)
qed

text \<open>
  Claim C10. For every list of string arguments, the string that \<open>resolve\<close> returns does
  not end with \<open>/\<close> unless it is exactly \<open>/\<close>.
\<close>

theorem C10_resolve_no_trailing_slash:
  "\<exists>r. resolve (map JString args) = Inr r \<and> (endsWithSlash r \<longrightarrow> r = ''/'')"
proof -
  obtain rp where r: "resolve (map JString args) =
      Inr (''/'' @ join_sep (normalizeArray (segs rp) False))"
    using resolve_strings [of args] by blast
  let ?parts = "normalizeArray (segs rp) False"
  have g: "good_parts ?parts" by (simp add: good_parts_normalizeArray)
  have "endsWithSlash (''/'' @ join_sep ?parts) \<longrightarrow> ''/'' @ join_sep ?parts = ''/''"
  proof (cases "?parts = []")
    case True
    then show ?thesis by simp
  next
    case False
    then have "join_sep ?parts \<noteq> [] \<and> last (join_sep ?parts) \<noteq> CHR ''/''"
      using join_sep_last_noslash [OF g] join_sep_Nil_iff [OF g] by simp
    then show ?thesis by (simp add: endsWithSlash_iff)
  qed
  with r show ?thesis by blast
qed

theorem C10_resolve_no_trailing_slash_witness:
  "endsWithSlash ''/'' \<and> resolve (map JString [''/'']) = Inr ''/'' \<and>
   resolve (map JString [''a/'', ''b//'']) = Inr ''/a/b''"
proof -
  have e: "endsWithSlash ''/''" by (simp add: endsWithSlash_iff)
  obtain r where r: "resolve (map JString [''/'']) = Inr r" "endsWithSlash r \<longrightarrow> r = ''/''"
    using C10_resolve_no_trailing_slash [of "[''/'']"] by blast
  have "resolve (map JString [''/'']) = Inr ''/''" by code_simp
  moreover have "resolve (map JString [''a/'', ''b//'']) = Inr ''/a/b''" by code_simp
  ultimately show ?thesis using e r by simp
qed

section \<open>Claims on the decomposition functions\<close>

text \<open>
  Claim C6. \<open>normalize\<close> collapses \<open>.\<close>, \<open>..\<close> and redundant separators of one path string:
  the result is the optional root marker, then its own non-empty segments joined by single
  separators, then at most one trailing separator; its segments are those the collapse
  procedure leaves of the input's segments (a lone \<open>.\<close> when nothing is left of a relative
  path); no segment is \<open>.\<close> except in the results \<open>.\<close> and \<open>./\<close>, and \<open>..\<close> occurs only as a
  leading run of a relative result. A trailing slash of the input is kept, the absolute
  marker is kept, and \<open>normalize('/a//b/../c/')\<close> is \<open>/a/c/\<close>.
\<close>

theorem C6_normalize_contract:
  "normalize ''/a//b/../c/'' = ''/a/c/'' \<and>
   normalize p = (if isAbsolute p then ''/'' else []) @ join_sep (segs (normalize p))
                 @ (if endsWithSlash p \<and> segs (normalize p) \<noteq> [] then ''/'' else []) \<and>
   segs (normalize p) =
     (if \<not> isAbsolute p \<and> normalizeArray (segs p) True = [] then [''.'']
      else normalizeArray (segs p) (\<not> isAbsolute p)) \<and>
   (normalize p \<noteq> ''.'' \<and> normalize p \<noteq> ''./'' \<longrightarrow> ''.'' \<notin> set (segs (normalize p))) \<and>
   (\<exists>k rest. segs (normalize p) = replicate k ''..'' @ rest \<and> ''..'' \<notin> set rest \<and>
              (isAbsolute p \<longrightarrow> k = 0)) \<and>
   (endsWithSlash p \<longrightarrow> endsWithSlash (normalize p)) \<and>
   isAbsolute (normalize p) = isAbsolute p"
proof -
  have ex: "normalize ''/a//b/../c/'' = ''/a/c/''" by code_simp
  obtain k u where ku: "nscan (rev (segs p)) 0 = (k, u)" by (cases "nscan (rev (segs p)) 0")
  have d: "dotfree k" using nscan_dotfree [of "rev (segs p)" 0] ku by simp
  have na: "normalizeArray (segs p) allow = (if allow then replicate u ''..'' @ k else k)"
    for allow by (simp add: normalizeArray_eq ku)
  note sg = normalize_segs [of p]
  have shape: "normalize p = (if isAbsolute p then ''/'' else []) @ join_sep (segs (normalize p))
                 @ (if endsWithSlash p \<and> segs (normalize p) \<noteq> [] then ''/'' else [])"
    unfolding sg by (cases "isAbsolute p") (simp_all add: normalize_eq)
  have nodot: "normalize p \<noteq> ''.'' \<and> normalize p \<noteq> ''./'' \<longrightarrow>
               ''.'' \<notin> set (segs (normalize p))"
  proof (cases "\<not> isAbsolute p \<and> normalizeArray (segs p) True = []")
    case True
    then have "normalize p = ''.'' \<or> normalize p = ''./''" by (auto simp: normalize_eq)
    then show ?thesis by blast
  next
    case False
    then have "segs (normalize p) = normalizeArray (segs p) (\<not> isAbsolute p)"
      unfolding sg by simp
    then show ?thesis using d by (auto simp: na dotfree_def)
  qed
  have ups: "\<exists>n rest. segs (normalize p) = replicate n ''..'' @ rest \<and> ''..'' \<notin> set rest \<and>
              (isAbsolute p \<longrightarrow> n = 0)"
  proof (cases "\<not> isAbsolute p \<and> normalizeArray (segs p) True = []")
    case True
    then have "segs (normalize p) = replicate 0 ''..'' @ [''.'']" unfolding sg by simp
    then show ?thesis by (intro exI [of _ 0] exI [of _ "[''.'']"]) simp
  next
    case False
    then have s: "segs (normalize p) = normalizeArray (segs p) (\<not> isAbsolute p)"
      unfolding sg by simp
    show ?thesis
    proof (cases "isAbsolute p")
      case True
      then have "segs (normalize p) = replicate 0 ''..'' @ k" using s by (simp add: na)
      then show ?thesis using d by (intro exI [of _ 0] exI [of _ k]) (simp add: dotfree_def)
    next
      case False
      then have "segs (normalize p) = replicate u ''..'' @ k" using s by (simp add: na)
      then show ?thesis using d False
        by (intro exI [of _ u] exI [of _ k]) (simp add: dotfree_def)
    qed
  qed
  have tr: "endsWithSlash p \<longrightarrow> endsWithSlash (normalize p)"
    by (simp add: normalize_trailing)
  from ex shape sg nodot ups tr normalize_absolute [of p] show ?thesis by blast
qed

theorem C6_normalize_contract_witness:
  "endsWithSlash ''a/./b/'' \<and> endsWithSlash (normalize ''a/./b/'') \<and>
   normalize ''a/./b/'' \<noteq> ''.'' \<and> normalize ''a/./b/'' \<noteq> ''./'' \<and>
   ''.'' \<notin> set (segs (normalize ''a/./b/''))"
proof -
  have e: "endsWithSlash ''a/./b/''" by (simp add: endsWithSlash_iff)
  have n: "normalize ''a/./b/'' = ''a/b/''" by code_simp
  then have ne: "normalize ''a/./b/'' \<noteq> ''.'' \<and> normalize ''a/./b/'' \<noteq> ''./''" by simp
  from C6_normalize_contract [of "''a/./b/''"] e ne show ?thesis by blast
qed

text \<open>
  Claim C8. For every string \<open>p\<close> that does not end with \<open>/\<close> and is not \<open>.\<close>, \<open>..\<close> or \<open>/\<close>,
  \<open>dirname(p)\<close> and \<open>basename(p)\<close> return strings and
  \<open>resolve(dirname(p), basename(p)) = resolve(p)\<close>.
\<close>

theorem C8_dirname_basename_roundtrip:
  assumes "\<not> endsWithSlash p" and "p \<noteq> ''.''" and "p \<noteq> ''..''" and "p \<noteq> ''/''"
  shows "\<exists>d b. dirname p = Inr d \<and> basename p None = Inr (Some b) \<and>
               resolve [JString d, JString b] = resolve [JString p]"
  by (rule dirname_basename_resolve)

theorem C8_dirname_basename_roundtrip_witness:
  "\<not> endsWithSlash ''/a/b/c.txt'' \<and>
   dirname ''/a/b/c.txt'' = Inr ''/a/b'' \<and> basename ''/a/b/c.txt'' None = Inr (Some ''c.txt'') \<and>
   resolve [JString ''/a/b'', JString ''c.txt''] = resolve [JString ''/a/b/c.txt'']"
proof -
  have h: "\<not> endsWithSlash ''/a/b/c.txt''" by (simp add: endsWithSlash_iff)
  have d: "dirname ''/a/b/c.txt'' = Inr ''/a/b''" by code_simp
  have b: "basename ''/a/b/c.txt'' None = Inr (Some ''c.txt'')" by code_simp
  from C8_dirname_basename_roundtrip [OF h]
  obtain d' b' where "dirname ''/a/b/c.txt'' = Inr d'"
    "basename ''/a/b/c.txt'' None = Inr (Some b')"
    "resolve [JString d', JString b'] = resolve [JString ''/a/b/c.txt'']" by auto
  with d b have "resolve [JString ''/a/b'', JString ''c.txt''] = resolve [JString ''/a/b/c.txt'']"
    by simp
  with h d b show ?thesis by simp
qed

text \<open>
  Claim C9. On strings nothing throws: the pattern of \<open>parse\<close> matches every string and
  all four captures are strings; \<open>dirname\<close>, \<open>basename\<close> (with or without \<open>ext\<close>) and
  \<open>extname\<close> return strings; \<open>join\<close> returns a string for every list of strings, in
  particular \<open>join(a, b)\<close>; \<open>relative\<close> returns a string; and \<open>normalize\<close>, which has no
  failing statement, returns a non-empty string.
\<close>

theorem C9_no_throw_on_strings:
  "(\<exists>root dir base ext. parse p = Inr [Some root, Some dir, Some base, Some ext]) \<and>
   (\<exists>s. dirname p = Inr s) \<and>
   (\<exists>s. basename p ext = Inr (Some s)) \<and>
   (\<exists>s. extname p = Inr (Some s)) \<and>
   (\<exists>s. join (map JString args) = Inr s) \<and>
   (\<exists>s. join [JString a, JString b] = Inr s) \<and>
   (\<exists>s. relative from to = Inr s) \<and>
   normalize p \<noteq> []"
proof -
  from parse_decomp [of p] obtain root dir base e where
    f: "parse p = Inr [Some root, Some dir, Some base, Some e]" by blast
  have j2: "\<exists>s. join [JString a, JString b] = Inr s"
    using join_strings [of "[a, b]"] by simp
  have r: "\<exists>s. relative from to = Inr s"
    using relative_roundtrip [of "from" "to"] by blast
  from f have "\<exists>root dir base ext. parse p = Inr [Some root, Some dir, Some base, Some ext]"
    by blast
  moreover have "\<exists>s. dirname p = Inr s" using parse_dirname [OF f] by blast
  moreover have "\<exists>s. basename p ext = Inr (Some s)" by (rule parse_basename_ext [OF f])
  moreover have "\<exists>s. extname p = Inr (Some s)" using parse_extname [OF f] by blast
  ultimately show ?thesis
    using join_strings [of args] j2 r normalize_nonempty [of p] by blast
qed

section \<open>Worked examples\<close>

text \<open>
  Claim C2. \<open>resolve('/a/b', '../c')\<close> returns \<open>/a/c\<close>, and \<open>resolve()\<close> with no argument
  returns \<open>/\<close>: only the synthetic root is prepended.
\<close>

theorem C2_resolve_examples:
  "resolve [JString ''/a/b'', JString ''../c''] = Inr ''/a/c'' \<and> resolve [] = Inr ''/''"
  by code_simp

text \<open>
  Claim C7. The decomposition functions on the worked examples:
  \<open>dirname('/a/b/c.txt')\<close> is \<open>/a/b\<close>, \<open>basename('/a/b/c.txt')\<close> is \<open>c.txt\<close>,
  \<open>basename('/a/b/c.txt', '.txt')\<close> is \<open>c\<close>, \<open>extname('/a/b/c.txt')\<close> is \<open>.txt\<close>, and
  \<open>extname('.gitignore')\<close> is the empty string.
\<close>

theorem C7_decomposition_examples:
  "dirname ''/a/b/c.txt'' = Inr ''/a/b'' \<and>
   basename ''/a/b/c.txt'' None = Inr (Some ''c.txt'') \<and>
   basename ''/a/b/c.txt'' (Some ''.txt'') = Inr (Some ''c'') \<and>
   extname ''/a/b/c.txt'' = Inr (Some ''.txt'') \<and>
   extname ''.gitignore'' = Inr (Some [])"
  by code_simp

end
